theory Spec2Isabelle
  imports Main "HOL-Library.Word"
begin

unbundle bit_operations_syntax

section \<open>Data model of the transfer queue\<close>

text \<open>
  The header \<^verbatim>\<open>urpc_common.h\<close> is not among the sources. What the C files need from
  it is taken as follows.
  \<^item> The compile-time constants \<^verbatim>\<open>URPC_LEN_MB\<close> (number of mailbox slots),
    \<^verbatim>\<open>URPC_DATA_BUFF_LEN\<close> (size of the payload ring) and
    \<^verbatim>\<open>URPC_ALLOC_TIMEOUT_US\<close> are parameters \<open>N\<close>, \<open>D\<close> and \<open>T\<close> of every
    function that uses them.
  \<^item> The mailbox word \<^verbatim>\<open>urpc_mb_t\<close> is a union of a 64-bit word and the packed
    fields \<^verbatim>\<open>c.cmd\<close> (8 bit), \<^verbatim>\<open>c.offs\<close> (24 bit), \<^verbatim>\<open>c.len\<close> (32 bit); the side
    table entry \<^verbatim>\<open>mlist_t\<close> is a union of a 64-bit word and \<^verbatim>\<open>b.offs\<close>,
    \<^verbatim>\<open>b.len\<close> (32 bit each). A write of 0 to the \<^verbatim>\<open>u64\<close> member clears every
    field; a copy of the \<^verbatim>\<open>u64\<close> member copies every field.
  \<^item> \<^verbatim>\<open>TQ_READ64\<close>, \<^verbatim>\<open>TQ_WRITE64\<close>, \<^verbatim>\<open>TQ_READ32\<close>, \<^verbatim>\<open>TQ_WRITE32\<close> are plain
    loads and stores, \<^verbatim>\<open>TQ_FENCE\<close> has no effect on a sequential run.
\<close>

record urpc_mb =
  c_cmd :: "8 word"
  c_offs :: "24 word"
  c_len :: "32 word"

record mlist_t =
  b_offs :: "32 word"
  b_len :: "32 word"

definition mb_zero :: urpc_mb where
  "mb_zero = \<lparr>c_cmd = 0, c_offs = 0, c_len = 0\<rparr>"

definition ml_zero :: mlist_t where
  "ml_zero = \<lparr>b_offs = 0, b_len = 0\<rparr>"

definition URPC_CMD_NONE :: "8 word" where
  "URPC_CMD_NONE = 0"

record transfer_queue =
  sender_flags :: "32 word"
  receiver_flags :: "32 word"
  last_put_req :: "64 word"
  last_get_req :: "64 word"
  mb :: "urpc_mb list"

record urpc_comm =
  tq :: transfer_queue
  mlist :: "mlist_t list"
  free_begin :: "32 word"
  free_end :: "32 word"

text \<open>
  Modelled from the spec: the macro \<^verbatim>\<open>REQ2SLOT\<close> of the missing header, "the slot index
  is REQ2SLOT(req) = req mod N". The request number is read as unsigned.
\<close>

definition REQ2SLOT :: "nat \<Rightarrow> 'a::len word \<Rightarrow> nat" where
  "REQ2SLOT N req = unat req mod N"

text \<open>
  Modelled from the spec: the macro \<^verbatim>\<open>ALIGN8B\<close> of the missing header, "round size up
  to 8 bytes". The result is truncated to the width of the variable it is stored in.
\<close>

definition ALIGN8B :: "'a::len word \<Rightarrow> 'a word" where
  "ALIGN8B x = (x + 7) AND NOT 7"

section \<open>Initialisation of a communicator (vh_urpc.c)\<close>

text \<open>The \<^verbatim>\<open>for\<close> loop of \<^verbatim>\<open>vh_urpc_comm_init\<close>, from index \<open>i\<close> on.\<close>

function comm_init_loop :: "nat \<Rightarrow> nat \<Rightarrow> urpc_comm \<Rightarrow> urpc_comm" where
  "comm_init_loop N i uc =
     (if i < N
      then comm_init_loop N (Suc i)
             (uc\<lparr>mlist := (mlist uc)[i := ml_zero],
                 tq := (tq uc)\<lparr>mb := (mb (tq uc))[i := mb_zero]\<rparr>\<rparr>)
      else uc)"
  by pat_completeness auto
termination
  by (relation "measure (\<lambda>(N, i, uc). N - i)") auto

declare comm_init_loop.simps [simp del]

definition vh_urpc_comm_init :: "nat \<Rightarrow> 32 word \<Rightarrow> urpc_comm \<Rightarrow> urpc_comm" where
  "vh_urpc_comm_init N D uc =
     (let uc1 = comm_init_loop N 0 uc;
          q = (tq uc1)\<lparr>sender_flags := 0, receiver_flags := 0,
                        last_put_req := - 1, last_get_req := - 1\<rparr>
      in uc1\<lparr>tq := q, free_begin := 0, free_end := D\<rparr>)"

section \<open>Transfer queue operations (urpc_common.c)\<close>

text \<open>
  \<^verbatim>\<open>urpc_get_cmd\<close>: the result is the request number (\<open>-1\<close> when nothing was
  fetched), the content of \<^verbatim>\<open>*m\<close> afterwards and the queue afterwards.
\<close>

definition urpc_get_cmd ::
  "nat \<Rightarrow> transfer_queue \<Rightarrow> urpc_mb \<Rightarrow> 64 word \<times> urpc_mb \<times> transfer_queue" where
  "urpc_get_cmd N q m =
     (let last_put = last_put_req q; last_get = last_get_req q
      in if last_put \<noteq> last_get
         then let req = last_get + 1; slot = REQ2SLOT N req
              in (req, mb q ! slot, q\<lparr>last_get_req := req\<rparr>)
         else (- 1, m, q))"

text \<open>
  \<^verbatim>\<open>urpc_get_req\<close>: fetches the slot of the request \<open>req\<close> and advances
  \<^verbatim>\<open>last_get_req\<close> only when \<open>req\<close> is the next request in order.
\<close>

definition urpc_get_req ::
  "nat \<Rightarrow> transfer_queue \<Rightarrow> urpc_mb \<Rightarrow> 64 word \<Rightarrow> 64 word \<times> urpc_mb \<times> transfer_queue" where
  "urpc_get_req N q m req =
     (let last_put = last_put_req q; last_get = last_get_req q
      in if req \<le>s last_get then (- 1, m, q)
         else if req \<le>s last_put
              then let slot = REQ2SLOT N req
                   in (req, mb q ! slot,
                       if last_get + 1 = req then q\<lparr>last_get_req := req\<rparr> else q)
              else (- 1, m, q))"

text \<open>\<^verbatim>\<open>urpc_slot_done\<close>: clears the command field of \<^verbatim>\<open>*m\<close> and stores it in the slot.\<close>

definition urpc_slot_done ::
  "transfer_queue \<Rightarrow> nat \<Rightarrow> urpc_mb \<Rightarrow> urpc_mb \<times> transfer_queue" where
  "urpc_slot_done q slot m =
     (let m' = m\<lparr>c_cmd := URPC_CMD_NONE\<rparr>
      in (m', q\<lparr>mb := (mb q)[slot := m']\<rparr>))"

text \<open>
  \<^verbatim>\<open>urpc_put_cmd\<close> on the send communicator. The \<^verbatim>\<open>do ... while\<close> loop re-reads the
  slot until its command field is empty and has no timeout: on a queue that nobody else
  changes it never ends when the slot is busy, which is the result \<open>None\<close>.
\<close>

definition urpc_put_cmd ::
  "nat \<Rightarrow> 32 word \<Rightarrow> urpc_comm \<Rightarrow> urpc_mb \<Rightarrow> (64 word \<times> urpc_comm) option" where
  "urpc_put_cmd N D uc m =
     (let q = tq uc; req = last_put_req q + 1; slot = REQ2SLOT N req
      in if c_cmd (mb q ! slot) \<noteq> URPC_CMD_NONE then None
         else
           let ml = mlist uc ! slot;
               fe = (if b_len ml \<noteq> 0 \<and> free_end uc < D \<and> b_offs ml = free_end uc
                     then free_end uc + b_len ml else free_end uc);
               ml' = (if c_len m \<noteq> 0
                      then ml\<lparr>b_len := c_len m, b_offs := ucast (c_offs m)\<rparr>
                      else ml_zero)
           in Some (req, uc\<lparr>tq := q\<lparr>mb := (mb q)[slot := m], last_put_req := req\<rparr>,
                            mlist := (mlist uc)[slot := ml'],
                            free_end := fe\<rparr>))"

section \<open>Payload allocator (urpc_common.c)\<close>

text \<open>The first part of \<^verbatim>\<open>_gc_buffer\<close>: the ring wrap, for the last published slot.\<close>

definition gc_wrap :: "32 word \<Rightarrow> nat \<Rightarrow> urpc_comm \<Rightarrow> urpc_comm" where
  "gc_wrap D last_slot uc =
     (if free_end uc = D
      then let ml = mlist uc ! last_slot;
               ml1 = (if b_len ml = 0 then ml\<lparr>b_offs := free_begin uc\<rparr> else ml);
               ml2 = ml1\<lparr>b_len := free_end uc - b_offs ml1\<rparr>
           in uc\<lparr>mlist := (mlist uc)[last_slot := ml2], free_begin := 0, free_end := 0\<rparr>
      else uc)"

text \<open>The body of the \<^verbatim>\<open>for\<close> loop of \<^verbatim>\<open>_gc_buffer\<close>, for one slot.\<close>

definition gc_slot :: "32 word \<Rightarrow> nat \<Rightarrow> urpc_comm \<Rightarrow> urpc_comm" where
  "gc_slot D slot uc =
     (let ml = mlist uc ! slot; m = mb (tq uc) ! slot
      in if c_cmd m = URPC_CMD_NONE \<and> 0 < b_len ml
         then uc\<lparr>free_end := (if free_end uc < D then ALIGN8B (b_offs ml + b_len ml)
                                else free_end uc),
                  mlist := (mlist uc)[slot := ml_zero],
                  tq := (tq uc)\<lparr>mb := (mb (tq uc))[slot := mb_zero]\<rparr>\<rparr>
         else uc)"

text \<open>The \<^verbatim>\<open>for\<close> loop of \<^verbatim>\<open>_gc_buffer\<close>, from the counter value \<open>i\<close> on.\<close>

function gc_loop :: "nat \<Rightarrow> 32 word \<Rightarrow> nat \<Rightarrow> nat \<Rightarrow> urpc_comm \<Rightarrow> urpc_comm" where
  "gc_loop N D last_slot i uc =
     (if i \<le> N
      then gc_loop N D last_slot (Suc i) (gc_slot D ((last_slot + i) mod N) uc)
      else uc)"
  by pat_completeness auto
termination
  by (relation "measure (\<lambda>(N, D, last_slot, i, uc). Suc N - i)") auto

declare gc_loop.simps [simp del]

text \<open>
  \<^verbatim>\<open>_gc_buffer\<close>: the local \<^verbatim>\<open>last_req\<close> is an \<^verbatim>\<open>uint32_t\<close>, so the 64-bit counter
  is truncated before the slot is computed. The result is the state afterwards; the
  returned number of free bytes is \<open>gc_free\<close> of it.
\<close>

definition gc_last_slot :: "nat \<Rightarrow> urpc_comm \<Rightarrow> nat" where
  "gc_last_slot N uc = REQ2SLOT N (ucast (last_put_req (tq uc)) :: 32 word)"

definition gc_buffer :: "nat \<Rightarrow> 32 word \<Rightarrow> urpc_comm \<Rightarrow> urpc_comm" where
  "gc_buffer N D uc =
     (let last_slot = gc_last_slot N uc
      in gc_loop N D last_slot 1 (gc_wrap D last_slot uc))"

definition gc_free :: "urpc_comm \<Rightarrow> 32 word" where
  "gc_free uc = free_end uc - free_begin uc"

text \<open>
  The receiving process runs concurrently with the allocator's wait loop: between two
  passes of the loop it may have finished requests (\<^verbatim>\<open>urpc_slot_done\<close> clears the
  command field of their slots), and the clock has advanced. One pass of the loop sees
  one observation: the slots finished since the previous pass, and the value that
  \<^verbatim>\<open>timediff_us(ts)\<close> has in this pass.
\<close>

type_synonym observation = "nat list \<times> int"

fun receiver_done :: "nat list \<Rightarrow> urpc_comm \<Rightarrow> urpc_comm" where
  "receiver_done [] uc = uc"
| "receiver_done (slot # slots) uc =
     receiver_done slots
       (uc\<lparr>tq := snd (urpc_slot_done (tq uc) slot (mb (tq uc) ! slot))\<rparr>)"

datatype alloc_result = Alloc_timed_out | Alloc_no_space | Alloc_ok urpc_mb

text \<open>
  The \<^verbatim>\<open>while\<close> loop of \<^verbatim>\<open>_alloc_payload\<close>. The result is \<open>Some (True, uc)\<close> for the
  \<^verbatim>\<open>return 0\<close> of the timeout, \<open>Some (False, uc)\<close> when the loop is left (by its
  condition or by \<^verbatim>\<open>break\<close>), and \<open>None\<close> when the loop is still running after the
  last observation.
\<close>

fun alloc_wait ::
  "nat \<Rightarrow> 32 word \<Rightarrow> int \<Rightarrow> 32 word \<Rightarrow> 32 word \<Rightarrow> observation list \<Rightarrow> urpc_comm
     \<Rightarrow> (bool \<times> urpc_comm) option" where
  "alloc_wait N D T sz asize [] uc =
     (if free_end uc - free_begin uc < asize then None else Some (False, uc))"
| "alloc_wait N D T sz asize (ob # obs) uc =
     (if free_end uc - free_begin uc < asize
      then let uc1 = gc_buffer N D (receiver_done (fst ob) uc);
               new_free = gc_free uc1
           in if new_free < sz
              then (if snd ob > T then Some (True, uc1)
                    else alloc_wait N D T sz asize obs uc1)
              else Some (False, uc1)
      else Some (False, uc))"

text \<open>
  \<^verbatim>\<open>_alloc_payload\<close>. The C function returns the 64-bit view of \<^verbatim>\<open>res\<close>, which is 0
  on both failure paths; the model keeps the two apart.
\<close>

definition alloc_payload ::
  "nat \<Rightarrow> 32 word \<Rightarrow> int \<Rightarrow> urpc_comm \<Rightarrow> 32 word \<Rightarrow> observation list
     \<Rightarrow> (alloc_result \<times> urpc_comm) option" where
  "alloc_payload N D T uc sz obs =
     (let asize = ALIGN8B sz
      in case alloc_wait N D T sz asize obs uc of
           None \<Rightarrow> None
         | Some (True, uc1) \<Rightarrow> Some (Alloc_timed_out, uc1)
         | Some (False, uc1) \<Rightarrow>
             if free_begin uc1 + asize > free_end uc1 then Some (Alloc_no_space, uc1)
             else Some (Alloc_ok \<lparr>c_cmd = 0, c_offs = ucast (free_begin uc1), c_len = sz\<rparr>,
                        uc1\<lparr>free_begin := free_begin uc1 + ALIGN8B sz\<rparr>))"

section \<open>Notions used to state the allocator's behaviour\<close>






section \<open>A run with requests finished out of order\<close>

text \<open>
  The allocation and publication steps of \<^verbatim>\<open>urpc_generic_send\<close> for a payload of
  \<open>sz\<close> bytes and the command code \<open>c\<close> (the packing of the payload bytes left out).
\<close>

definition send_payload ::
  "nat \<Rightarrow> 32 word \<Rightarrow> int \<Rightarrow> urpc_comm \<Rightarrow> 8 word \<Rightarrow> 32 word \<Rightarrow> observation list
     \<Rightarrow> urpc_comm option" where
  "send_payload N D T uc c sz obs =
     (case alloc_payload N D T uc sz obs of
        Some (Alloc_ok m, uc1) \<Rightarrow> map_option snd (urpc_put_cmd N D uc1 (m\<lparr>c_cmd := c\<rparr>))
      | _ \<Rightarrow> None)"

text \<open>
  The receiver fetches the request \<open>req\<close> with \<^verbatim>\<open>urpc_get_req\<close> and marks its slot
  done with \<^verbatim>\<open>urpc_slot_done\<close>, as \<^verbatim>\<open>urpc_recv_req_timeout\<close> and its caller do.
\<close>

definition fetch_and_done :: "nat \<Rightarrow> urpc_comm \<Rightarrow> 64 word \<Rightarrow> urpc_comm option" where
  "fetch_and_done N uc req =
     (case urpc_get_req N (tq uc) mb_zero req of
        (r, m, q) \<Rightarrow>
          if r = req then Some (uc\<lparr>tq := snd (urpc_slot_done q (REQ2SLOT N req) m)\<rparr>)
          else None)"

definition blank_comm :: "nat \<Rightarrow> urpc_comm" where
  "blank_comm N =
     \<lparr>tq = \<lparr>sender_flags = 0, receiver_flags = 0, last_put_req = 0, last_get_req = 0,
            mb = replicate N mb_zero\<rparr>,
      mlist = replicate N ml_zero, free_begin = 0, free_end = 0\<rparr>"

text \<open>
  With 4 slots and a ring of 1024 bytes: requests 0 and 1 are sent with payloads of 512
  and 504 bytes, the receiver finishes request 0, requests 2 and 3 are sent with 200
  bytes each (the first of them after a garbage pass that wraps the ring), and the
  receiver finishes request 2 while request 1 is still being worked on.
\<close>

definition out_of_order_run :: "urpc_comm option" where
  "out_of_order_run =
     Option.bind (send_payload 4 1024 1000 (vh_urpc_comm_init 4 1024 (blank_comm 4)) 1 512 [])
      (\<lambda>u. Option.bind (send_payload 4 1024 1000 u 1 504 [])
      (\<lambda>u. Option.bind (fetch_and_done 4 u 0)
      (\<lambda>u. Option.bind (send_payload 4 1024 1000 u 1 200 [([], 0)])
      (\<lambda>u. Option.bind (send_payload 4 1024 1000 u 1 200 [])
      (\<lambda>u. fetch_and_done 4 u 2)))))"

definition out_of_order_state :: urpc_comm where
  "out_of_order_state =
     \<lparr>tq = \<lparr>sender_flags = 0, receiver_flags = 0, last_put_req = 3, last_get_req = 0,
            mb = [\<lparr>c_cmd = 0, c_offs = 0, c_len = 0\<rparr>,
                  \<lparr>c_cmd = 1, c_offs = 512, c_len = 504\<rparr>,
                  \<lparr>c_cmd = 0, c_offs = 0, c_len = 200\<rparr>,
                  \<lparr>c_cmd = 1, c_offs = 200, c_len = 200\<rparr>]\<rparr>,
      mlist = [\<lparr>b_offs = 0, b_len = 0\<rparr>, \<lparr>b_offs = 512, b_len = 512\<rparr>,
               \<lparr>b_offs = 0, b_len = 200\<rparr>, \<lparr>b_offs = 200, b_len = 200\<rparr>],
      free_begin = 400, free_end = 512\<rparr>"

text \<open>
  With 4 slots and a ring of 1024 bytes: the state after request 0 was sent with a
  payload of 1000 bytes, which leaves 24 bytes at the end of the ring.
\<close>

definition ring_in_use :: urpc_comm where
  "ring_in_use =
     \<lparr>tq = \<lparr>sender_flags = 0, receiver_flags = 0, last_put_req = 0, last_get_req = - 1,
            mb = [\<lparr>c_cmd = 1, c_offs = 0, c_len = 1000\<rparr>,
                  \<lparr>c_cmd = 0, c_offs = 0, c_len = 0\<rparr>,
                  \<lparr>c_cmd = 0, c_offs = 0, c_len = 0\<rparr>,
                  \<lparr>c_cmd = 0, c_offs = 0, c_len = 0\<rparr>]\<rparr>,
      mlist = [\<lparr>b_offs = 0, b_len = 1000\<rparr>, \<lparr>b_offs = 0, b_len = 0\<rparr>,
               \<lparr>b_offs = 0, b_len = 0\<rparr>, \<lparr>b_offs = 0, b_len = 0\<rparr>],
      free_begin = 1000, free_end = 1024\<rparr>"


section \<open>Runs of the transfer queue\<close>

text \<open>
  One direction of the channel, operated by its producer (\<^verbatim>\<open>urpc_put_cmd\<close>) and its
  consumer, which fetches the next request (\<^verbatim>\<open>urpc_get_cmd\<close>) and later releases
  the slot of a request it has fetched (\<^verbatim>\<open>urpc_slot_done\<close>, called with the slot of
  the request and the mailbox word that the handler may have changed), as
  \<^verbatim>\<open>urpc_recv_progress\<close> does. Beside the communicator a run keeps the requests that
  the consumer has fetched and not yet released. A \<open>Put\<close> whose slot is busy spins: the
  state stays as it is. A \<open>Done\<close> for a request that the consumer does not hold is not
  a step of the consumer: the state stays as it is.
\<close>

datatype tq_op = Put urpc_mb | Get | Done "64 word" urpc_mb

definition tq_step ::
  "nat \<Rightarrow> 32 word \<Rightarrow> urpc_comm \<times> 64 word list \<Rightarrow> tq_op \<Rightarrow> urpc_comm \<times> 64 word list" where
  "tq_step N D s st =
     (case s of (uc, held) \<Rightarrow>
        (case st of
           Put m \<Rightarrow>
             (case urpc_put_cmd N D uc m of None \<Rightarrow> (uc, held) | Some (req, uc') \<Rightarrow> (uc', held))
         | Get \<Rightarrow>
             (case urpc_get_cmd N (tq uc) mb_zero of
                (req, m, q) \<Rightarrow> (uc\<lparr>tq := q\<rparr>, if 0 \<le>s req then held @ [req] else held))
         | Done req m \<Rightarrow>
             if req \<in> set held
             then (uc\<lparr>tq := snd (urpc_slot_done (tq uc) (REQ2SLOT N req) m)\<rparr>,
                   remove1 req held)
             else (uc, held)))"

definition tq_run ::
  "nat \<Rightarrow> 32 word \<Rightarrow> urpc_comm \<Rightarrow> tq_op list \<Rightarrow> urpc_comm \<times> 64 word list" where
  "tq_run N D uc0 steps = foldl (tq_step N D) (vh_urpc_comm_init N D uc0, []) steps"

text \<open>Every command that a run puts has a non-empty command code.\<close>

fun nonempty_puts :: "tq_op list \<Rightarrow> bool" where
  "nonempty_puts [] = True"
| "nonempty_puts (Put m # steps) = (c_cmd m \<noteq> URPC_CMD_NONE \<and> nonempty_puts steps)"
| "nonempty_puts (Get # steps) = nonempty_puts steps"
| "nonempty_puts (Done req m # steps) = nonempty_puts steps"

text \<open>
  A command field may keep its value, become non-empty from empty, or become empty; it
  never goes from one non-empty value to another.
\<close>

definition cmd_change_ok :: "8 word \<Rightarrow> 8 word \<Rightarrow> bool" where
  "cmd_change_ok a b = (a = b \<or> a = URPC_CMD_NONE \<or> b = URPC_CMD_NONE)"

definition slots_change_ok :: "nat \<Rightarrow> urpc_comm \<Rightarrow> urpc_comm \<Rightarrow> bool" where
  "slots_change_ok N uc uc' =
     list_all (\<lambda>i. cmd_change_ok (c_cmd (mb (tq uc) ! i)) (c_cmd (mb (tq uc') ! i))) [0..<N]"

text \<open>
  The invariant of runs of \<open>n\<close> steps. With \<open>P = last_put_req\<close> and \<open>G = last_get_req\<close>:
  the requests that the consumer holds have been fetched and are among the last \<open>N\<close>
  requests put, and every request among the last \<open>N\<close> that is not yet fetched or is
  held still has a non-empty command code in its slot.
\<close>

definition tq_inv :: "nat \<Rightarrow> nat \<Rightarrow> urpc_comm \<times> 64 word list \<Rightarrow> bool" where
  "tq_inv N n s =
     (case s of (uc, held) \<Rightarrow>
        length (mb (tq uc)) = N \<and>
        - 1 \<le> sint (last_get_req (tq uc)) \<and>
        sint (last_get_req (tq uc)) \<le> sint (last_put_req (tq uc)) \<and>
        sint (last_put_req (tq uc)) \<le> sint (last_get_req (tq uc)) + int N \<and>
        sint (last_put_req (tq uc)) < int n \<and>
        distinct held \<and>
        (\<forall>r\<in>set held. 0 \<le> sint r \<and> sint r \<le> sint (last_get_req (tq uc)) \<and>
                        sint (last_put_req (tq uc)) - int N < sint r) \<and>
        (\<forall>r. 0 \<le> sint r \<and> sint (last_put_req (tq uc)) - int N < sint r \<and>
             sint r \<le> sint (last_put_req (tq uc)) \<and>
             (sint (last_get_req (tq uc)) < sint r \<or> r \<in> set held)
             \<longrightarrow> c_cmd (mb (tq uc) ! REQ2SLOT N r) \<noteq> URPC_CMD_NONE))"

text \<open>
  A run on a queue of 2 slots in which slot 0 is used again: requests 0 and 1 are put,
  request 0 is fetched and released, request 2 is put in its slot, and request 1 is
  fetched and still held.
\<close>

definition reuse_run :: "tq_op list" where
  "reuse_run =
     [Put \<lparr>c_cmd = 1, c_offs = 0, c_len = 8\<rparr>, Put \<lparr>c_cmd = 2, c_offs = 8, c_len = 0\<rparr>,
      Get, Done 0 \<lparr>c_cmd = 1, c_offs = 0, c_len = 8\<rparr>,
      Put \<lparr>c_cmd = 3, c_offs = 8, c_len = 0\<rparr>, Get]"

section \<open>The inbound progress loop (urpc_common.c)\<close>

text \<open>
  A handler is called with the peer, the mailbox word (by pointer), the request number,
  the payload pointer and the payload length, and returns an \<^verbatim>\<open>int\<close>. In the model
  the part of the peer that a handler works on is the state \<open>'u\<close>: everything but the
  receive queue and the handler table (the send communicator, on which a handler may
  reply, is part of it). The payload pointer is an offset into the data ring, \<open>None\<close>
  for \<^verbatim>\<open>NULL\<close>. The handler table is indexed by the 8-bit command code.
\<close>

type_synonym 'u urpc_handler_func =
  "'u \<Rightarrow> urpc_mb \<Rightarrow> 64 word \<Rightarrow> nat option \<Rightarrow> 64 word \<Rightarrow> int \<times> urpc_mb \<times> 'u"

record 'u urpc_peer =
  recv_tq :: transfer_queue
  handler :: "8 word \<Rightarrow> 'u urpc_handler_func option"
  user :: 'u

text \<open>\<^verbatim>\<open>set_recv_payload\<close> on the host side (no \<^verbatim>\<open>__ve__\<close>): it always returns 0.\<close>

definition set_recv_payload :: "urpc_mb \<Rightarrow> nat option \<times> 64 word" where
  "set_recv_payload m =
     (if 0 < c_len m then (Some (unat (c_offs m)), ucast (c_len m)) else (None, 0))"

text \<open>
  What one pass of the loop does with an entry: there is no handler for its command
  code, or the handler returned 0, or it returned \<open>err \<noteq> 0\<close> and the warning
  "RPC handler returned err" was printed.
\<close>

datatype handler_outcome = No_handler | Handler_ok | Handler_warning int

record recv_entry =
  e_req :: "64 word"
  e_cmd :: "8 word"
  e_outcome :: handler_outcome

definition call_handler ::
  "'u urpc_peer \<Rightarrow> urpc_mb \<Rightarrow> 64 word \<Rightarrow> handler_outcome \<times> urpc_mb \<times> 'u" where
  "call_handler up m req =
     (case handler up (c_cmd m) of
        None \<Rightarrow> (No_handler, m, user up)
      | Some func \<Rightarrow>
          (case set_recv_payload m of
             (payload, plen) \<Rightarrow>
               (case func (user up) m req payload plen of
                  (err, m', u') \<Rightarrow>
                    (if err \<noteq> 0 then Handler_warning err else Handler_ok, m', u'))))"

text \<open>
  The \<^verbatim>\<open>while (done < ncmds)\<close> loop of \<^verbatim>\<open>urpc_recv_progress\<close>, with \<open>k\<close> passes
  left. The result lists the entries processed, in order.
\<close>

fun recv_progress_loop ::
  "nat \<Rightarrow> nat \<Rightarrow> 'u urpc_peer \<Rightarrow> urpc_mb \<Rightarrow> recv_entry list \<times> 'u urpc_peer" where
  "recv_progress_loop N 0 up m = ([], up)"
| "recv_progress_loop N (Suc k) up m =
     (case urpc_get_cmd N (recv_tq up) m of
        (req, m1, q1) \<Rightarrow>
          if req <s 0 then ([], up\<lparr>recv_tq := q1\<rparr>)
          else
            (case call_handler up m1 req of
               (outcome, m2, u2) \<Rightarrow>
                 (case urpc_slot_done q1 (REQ2SLOT N req) m2 of
                    (m3, q3) \<Rightarrow>
                      (case recv_progress_loop N k (up\<lparr>recv_tq := q3, user := u2\<rparr>) m3 of
                         (es, up') \<Rightarrow>
                           (\<lparr>e_req = req, e_cmd = c_cmd m1, e_outcome = outcome\<rparr> # es, up')))))"

text \<open>
  \<^verbatim>\<open>urpc_recv_progress\<close>: the first component of the result is the returned
  \<^verbatim>\<open>done\<close>. The counter \<^verbatim>\<open>done\<close> never exceeds \<^verbatim>\<open>ncmds\<close>, so it cannot overflow.
\<close>

definition urpc_recv_progress ::
  "nat \<Rightarrow> 'u urpc_peer \<Rightarrow> int \<Rightarrow> int \<times> recv_entry list \<times> 'u urpc_peer" where
  "urpc_recv_progress N up ncmds =
     (case recv_progress_loop N (nat ncmds) up mb_zero of
        (es, up') \<Rightarrow> (int (length es), es, up'))"

text \<open>
  The \<^verbatim>\<open>do ... while\<close> loop of \<^verbatim>\<open>urpc_recv_progress_timeout\<close>. The functions
  \<^verbatim>\<open>get_time_us\<close> and \<^verbatim>\<open>timediff_us\<close> (\<^verbatim>\<open>urpc_time.h\<close>) are not among the
  sources: each pass of the loop takes one pair of clock readings, the value that
  \<^verbatim>\<open>get_time_us()\<close> and the value that \<^verbatim>\<open>timediff_us(done_ts)\<close> have in that pass.
  The result is \<open>None\<close> when the loop is still running after the last reading.
\<close>

fun recv_timeout_loop ::
  "nat \<Rightarrow> int \<Rightarrow> int \<Rightarrow> (int \<times> int) list \<Rightarrow> int \<Rightarrow> 'u urpc_peer
     \<Rightarrow> (recv_entry list \<times> 'u urpc_peer) option" where
  "recv_timeout_loop N ncmds timeout_us [] done_ts up = None"
| "recv_timeout_loop N ncmds timeout_us ((now, tdiff) # clock) done_ts up =
     (case urpc_recv_progress N up ncmds of
        (done, es, up1) \<Rightarrow>
          let done_ts1 = (if done = 0 then (if done_ts = 0 then now else done_ts) else 0)
          in if done_ts1 = 0 \<or> tdiff < timeout_us
             then map_option (\<lambda>(es', up'). (es @ es', up'))
                    (recv_timeout_loop N ncmds timeout_us clock done_ts1 up1)
             else Some (es, up1))"

text \<open>
  \<^verbatim>\<open>urpc_recv_progress_timeout\<close> is declared to return \<^verbatim>\<open>int\<close>, and control reaches
  the closing brace of its body without a \<^verbatim>\<open>return\<close> statement: the first component
  of the result, the value returned, is \<open>None\<close>. The second component lists the entries
  processed by all passes.
\<close>

definition urpc_recv_progress_timeout ::
  "nat \<Rightarrow> 'u urpc_peer \<Rightarrow> int \<Rightarrow> int \<Rightarrow> (int \<times> int) list
     \<Rightarrow> (int option \<times> recv_entry list \<times> 'u urpc_peer) option" where
  "urpc_recv_progress_timeout N up ncmds timeout_us clock =
     map_option (\<lambda>(es, up'). (None, es, up'))
       (recv_timeout_loop N ncmds timeout_us clock 0 up)"

text \<open>
  A peer with three requests waiting, for the command codes 1, 9 and 1, and a single
  handler, for the code 1, which counts its calls and returns the error 5.
\<close>

definition demo_peer :: "nat urpc_peer" where
  "demo_peer =
     \<lparr>recv_tq = \<lparr>sender_flags = 0, receiver_flags = 0, last_put_req = 2, last_get_req = - 1,
                 mb = [\<lparr>c_cmd = 1, c_offs = 0, c_len = 8\<rparr>,
                       \<lparr>c_cmd = 9, c_offs = 8, c_len = 8\<rparr>,
                       \<lparr>c_cmd = 1, c_offs = 16, c_len = 0\<rparr>,
                       \<lparr>c_cmd = 0, c_offs = 0, c_len = 0\<rparr>]\<rparr>,
      handler = (\<lambda>c. if c = 1 then Some (\<lambda>u m req payload plen. (5, m, Suc u)) else None),
      user = 0\<rparr>"

section \<open>The codec (urpc_common.c)\<close>

text \<open>
  The payload bytes live in the data ring of the transfer queue. The ring is a memory
  from byte offsets to bytes; a payload pointer is an offset into it. Multi-byte values
  are stored little-endian, as on both peers.
\<close>

type_synonym memory = "nat \<Rightarrow> 8 word"

fun le_bytes :: "nat \<Rightarrow> nat \<Rightarrow> 8 word list" where
  "le_bytes 0 v = []"
| "le_bytes (Suc n) v = of_nat (v mod 256) # le_bytes n (v div 256)"

fun le_val :: "8 word list \<Rightarrow> nat" where
  "le_val [] = 0"
| "le_val (b # bs) = unat b + 256 * le_val bs"

fun write_bytes :: "nat \<Rightarrow> 8 word list \<Rightarrow> memory \<Rightarrow> memory" where
  "write_bytes a [] mem = mem"
| "write_bytes a (b # bs) mem = write_bytes (Suc a) bs (mem(a := b))"

definition read_bytes :: "nat \<Rightarrow> nat \<Rightarrow> memory \<Rightarrow> 8 word list" where
  "read_bytes a n mem = map mem [a..<a + n]"

definition store32 :: "nat \<Rightarrow> 32 word \<Rightarrow> memory \<Rightarrow> memory" where
  "store32 a v mem = write_bytes a (le_bytes 4 (unat v)) mem"

definition store64 :: "nat \<Rightarrow> 64 word \<Rightarrow> memory \<Rightarrow> memory" where
  "store64 a v mem = write_bytes a (le_bytes 8 (unat v)) mem"

definition load32 :: "nat \<Rightarrow> memory \<Rightarrow> 32 word" where
  "load32 a mem = of_nat (le_val (read_bytes a 4 mem))"

definition load64 :: "nat \<Rightarrow> memory \<Rightarrow> 64 word" where
  "load64 a mem = of_nat (le_val (read_bytes a 8 mem))"

text \<open>
  The variadic arguments of \<^verbatim>\<open>urpc_generic_send\<close>: a 32-bit value for \<^verbatim>\<open>I\<close>, a
  64-bit value for \<^verbatim>\<open>L\<close>, and for \<^verbatim>\<open>P\<close> a pointer and a byte count, modelled as the
  bytes the pointer refers to. The outputs of \<^verbatim>\<open>urpc_unpack_payload\<close>: the values
  stored through its pointer arguments, in order; for \<^verbatim>\<open>P\<close> the pointer into the payload
  and the length.
\<close>

datatype send_arg = Arg_I "32 word" | Arg_L "64 word" | Arg_P "8 word list"

datatype recv_out = Out_I "32 word" | Out_L "64 word" | Out_P nat "64 word"

text \<open>
  The first loop of \<^verbatim>\<open>urpc_generic_send\<close>, which computes the payload size in a
  \<^verbatim>\<open>size_t\<close>. An argument of another type than the format asks for, or a missing
  argument, is undefined behaviour of \<^verbatim>\<open>va_arg\<close>: the result \<open>None\<close>. A character
  other than \<^verbatim>\<open>I\<close>, \<^verbatim>\<open>L\<close>, \<^verbatim>\<open>P\<close>, \<^verbatim>\<open>x\<close> prints an error and is skipped.
\<close>

fun pack_size :: "string \<Rightarrow> send_arg list \<Rightarrow> 64 word \<Rightarrow> 64 word option" where
  "pack_size [] args sz = Some sz"
| "pack_size (c # fmt) args sz =
     (if c = CHR ''I'' then
        (case args of Arg_I v # rest \<Rightarrow> pack_size fmt rest (sz + 4) | _ \<Rightarrow> None)
      else if c = CHR ''L'' then
        (case args of Arg_L v # rest \<Rightarrow> pack_size fmt rest (sz + 8) | _ \<Rightarrow> None)
      else if c = CHR ''P'' then
        (case args of
           Arg_P bs # rest \<Rightarrow> pack_size fmt rest (sz + 8 + of_nat (length bs))
         | _ \<Rightarrow> None)
      else if c = CHR ''x'' then pack_size fmt args (sz + 4)
      else pack_size fmt args sz)"

text \<open>The second loop of \<^verbatim>\<open>urpc_generic_send\<close>, which writes the payload at \<open>pp\<close>.\<close>

fun pack_fill :: "string \<Rightarrow> send_arg list \<Rightarrow> nat \<Rightarrow> memory \<Rightarrow> memory option" where
  "pack_fill [] args pp mem = Some mem"
| "pack_fill (c # fmt) args pp mem =
     (if c = CHR ''I'' then
        (case args of
           Arg_I v # rest \<Rightarrow> pack_fill fmt rest (pp + 4) (store32 pp v mem)
         | _ \<Rightarrow> None)
      else if c = CHR ''L'' then
        (case args of
           Arg_L v # rest \<Rightarrow> pack_fill fmt rest (pp + 8) (store64 pp v mem)
         | _ \<Rightarrow> None)
      else if c = CHR ''P'' then
        (case args of
           Arg_P bs # rest \<Rightarrow>
             pack_fill fmt rest (pp + 8 + length bs)
               (write_bytes (pp + 8) bs (store64 pp (of_nat (length bs)) mem))
         | _ \<Rightarrow> None)
      else if c = CHR ''x'' then pack_fill fmt args (pp + 4) mem
      else pack_fill fmt args pp mem)"

text \<open>
  \<^verbatim>\<open>urpc_generic_send\<close> on the host side. It returns the request number, or
  \<^verbatim>\<open>-ENOMEM\<close> when the allocation failed; it does not return while the allocator or
  \<^verbatim>\<open>urpc_put_cmd\<close> spin.
\<close>

datatype send_result =
  Send_undefined | Send_spinning | Send_ENOMEM urpc_comm | Send_ok "64 word" urpc_comm memory

definition send_put ::
  "nat \<Rightarrow> 32 word \<Rightarrow> urpc_comm \<Rightarrow> memory \<Rightarrow> urpc_mb \<Rightarrow> send_result" where
  "send_put N D uc data m =
     (case urpc_put_cmd N D uc m of
        None \<Rightarrow> Send_spinning
      | Some (req, uc') \<Rightarrow> Send_ok req uc' data)"

definition urpc_generic_send ::
  "nat \<Rightarrow> 32 word \<Rightarrow> int \<Rightarrow> urpc_comm \<Rightarrow> memory \<Rightarrow> int \<Rightarrow> string \<Rightarrow> send_arg list
     \<Rightarrow> observation list \<Rightarrow> send_result" where
  "urpc_generic_send N D T uc data cmd fmt args obs =
     (case pack_size fmt args 0 of
        None \<Rightarrow> Send_undefined
      | Some s \<Rightarrow>
          let sz = ALIGN8B s
          in if sz \<noteq> 0
             then (case alloc_payload N D T uc (ucast sz) obs of
                     None \<Rightarrow> Send_spinning
                   | Some (Alloc_ok m, uc1) \<Rightarrow>
                       if m = mb_zero then Send_ENOMEM uc1
                       else (case pack_fill fmt args (unat (c_offs m)) data of
                               None \<Rightarrow> Send_undefined
                             | Some data1 \<Rightarrow>
                                 send_put N D uc1 data1 (m\<lparr>c_cmd := of_int cmd\<rparr>))
                   | Some (_, uc1) \<Rightarrow> Send_ENOMEM uc1)
             else send_put N D uc data (mb_zero\<lparr>c_cmd := of_int cmd\<rparr>))"

text \<open>
  The loop of \<^verbatim>\<open>urpc_unpack_payload\<close>. The local \<^verbatim>\<open>lsz\<close> is a \<^verbatim>\<open>long\<close> that starts
  as \<^verbatim>\<open>(long)psz\<close>; \<^verbatim>\<open>lsz -= *dummys\<close> subtracts a \<^verbatim>\<open>size_t\<close>, modulo \<open>2^64\<close>.
\<close>

fun unpack_loop :: "memory \<Rightarrow> string \<Rightarrow> nat \<Rightarrow> 64 word \<Rightarrow> 64 word \<times> recv_out list" where
  "unpack_loop mem [] pp lsz = (lsz, [])"
| "unpack_loop mem (c # fmt) pp lsz =
     (if lsz <s 0 then (lsz, [])
      else if c = CHR ''I'' then
        (case unpack_loop mem fmt (pp + 4) (lsz - 4) of
           (l, outs) \<Rightarrow> (l, Out_I (load32 pp mem) # outs))
      else if c = CHR ''L'' then
        (case unpack_loop mem fmt (pp + 8) (lsz - 8) of
           (l, outs) \<Rightarrow> (l, Out_L (load64 pp mem) # outs))
      else if c = CHR ''P'' then
        (let dummys = load64 pp mem
         in case unpack_loop mem fmt (pp + 8 + unat dummys) (lsz - 8 - dummys) of
              (l, outs) \<Rightarrow> (l, Out_P (pp + 8) dummys # outs))
      else if c = CHR ''x'' then unpack_loop mem fmt (pp + 4) (lsz - 4)
      else unpack_loop mem fmt pp lsz)"

text \<open>
  \<^verbatim>\<open>urpc_unpack_payload\<close>. The payload pointer is \<^verbatim>\<open>NULL\<close> for a request without
  payload; the result is \<open>None\<close> when the loop would read through it.
\<close>

definition reads_payload :: "string \<Rightarrow> 64 word \<Rightarrow> bool" where
  "reads_payload fmt psz =
     (\<not> psz <s 0 \<and> (\<exists>c\<in>set fmt. c = CHR ''I'' \<or> c = CHR ''L'' \<or> c = CHR ''P''))"

definition urpc_unpack_payload ::
  "memory \<Rightarrow> nat option \<Rightarrow> 64 word \<Rightarrow> string \<Rightarrow> (int \<times> recv_out list) option" where
  "urpc_unpack_payload mem payload psz fmt =
     (if payload = None \<and> reads_payload fmt psz then None
      else case unpack_loop mem fmt (case payload of None \<Rightarrow> 0 | Some pp \<Rightarrow> pp) psz of
             (lsz, outs) \<Rightarrow> Some (if lsz <s 0 then - 1 else 0, outs))"

text \<open>
  The argument list matches the format: one argument of the right kind for each
  \<^verbatim>\<open>I\<close>, \<^verbatim>\<open>L\<close> and \<^verbatim>\<open>P\<close>, and none left over.
\<close>

fun args_match :: "string \<Rightarrow> send_arg list \<Rightarrow> bool" where
  "args_match [] args = (args = [])"
| "args_match (c # fmt) args =
     (if c = CHR ''I'' then (case args of Arg_I v # rest \<Rightarrow> args_match fmt rest | _ \<Rightarrow> False)
      else if c = CHR ''L'' then (case args of Arg_L v # rest \<Rightarrow> args_match fmt rest | _ \<Rightarrow> False)
      else if c = CHR ''P'' then (case args of Arg_P bs # rest \<Rightarrow> args_match fmt rest | _ \<Rightarrow> False)
      else args_match fmt args)"

text \<open>The number of bytes the fields of the record take, before rounding.\<close>

fun pack_total :: "string \<Rightarrow> send_arg list \<Rightarrow> nat" where
  "pack_total [] args = 0"
| "pack_total (c # fmt) args =
     (if c = CHR ''I'' then 4 + pack_total fmt (tl args)
      else if c = CHR ''L'' then 8 + pack_total fmt (tl args)
      else if c = CHR ''P'' then
        (case args of Arg_P bs # rest \<Rightarrow> 8 + length bs + pack_total fmt rest
         | _ \<Rightarrow> 8 + pack_total fmt (tl args))
      else if c = CHR ''x'' then 4 + pack_total fmt args
      else pack_total fmt args)"

text \<open>
  An output gives back an argument: the same value for \<^verbatim>\<open>I\<close> and \<^verbatim>\<open>L\<close>; for \<^verbatim>\<open>P\<close>
  the same length, and a pointer into the payload region from \<open>lo\<close> to \<open>hi\<close> at which
  the memory holds the same bytes.
\<close>

fun out_matches :: "memory \<Rightarrow> nat \<Rightarrow> nat \<Rightarrow> send_arg \<Rightarrow> recv_out \<Rightarrow> bool" where
  "out_matches mem lo hi (Arg_I v) (Out_I w) = (w = v)"
| "out_matches mem lo hi (Arg_L v) (Out_L w) = (w = v)"
| "out_matches mem lo hi (Arg_P bs) (Out_P ptr n) =
     (n = of_nat (length bs) \<and> read_bytes ptr (length bs) mem = bs \<and>
      lo \<le> ptr \<and> ptr + length bs \<le> hi)"
| "out_matches mem lo hi _ _ = False"

definition mem0 :: memory where "mem0 = (\<lambda>a. 0)"

text \<open>
  The number of bytes that a format requires of a payload at \<open>pp\<close>, the lengths of its
  \<^verbatim>\<open>P\<close> fields read from the payload: the quantity that claim C6 compares with
  \<^verbatim>\<open>psz\<close>.
\<close>

fun bytes_required :: "memory \<Rightarrow> string \<Rightarrow> nat \<Rightarrow> nat" where
  "bytes_required mem [] pp = 0"
| "bytes_required mem (c # fmt) pp =
     (if c = CHR ''I'' then 4 + bytes_required mem fmt (pp + 4)
      else if c = CHR ''L'' then 8 + bytes_required mem fmt (pp + 8)
      else if c = CHR ''P'' then
        8 + unat (load64 pp mem) + bytes_required mem fmt (pp + 8 + unat (load64 pp mem))
      else if c = CHR ''x'' then 4 + bytes_required mem fmt (pp + 4)
      else bytes_required mem fmt pp)"

text \<open>A payload of 8 bytes that holds the length \<open>2^64 - 8\<close> of a \<^verbatim>\<open>P\<close> field.\<close>

definition huge_length_payload :: memory where
  "huge_length_payload = write_bytes 0 [0xF8, 0xFF, 0xFF, 0xFF, 0xFF, 0xFF, 0xFF, 0xFF] mem0"

text \<open>A record with all four kinds of fields, sent on a freshly initialised queue.\<close>

definition demo_send :: send_result where
  "demo_send =
     urpc_generic_send 4 1024 1000 (vh_urpc_comm_init 4 1024 (blank_comm 4)) mem0 7 ''IxLP''
       [Arg_I 5, Arg_L 77, Arg_P [1, 2, 3]] []"

text \<open>Every \<^verbatim>\<open>P\<close> length that the format finds in the payload is below \<open>2^62\<close>.\<close>

fun lengths_small :: "memory \<Rightarrow> string \<Rightarrow> nat \<Rightarrow> bool" where
  "lengths_small mem [] pp = True"
| "lengths_small mem (c # fmt) pp =
     (if c = CHR ''I'' then lengths_small mem fmt (pp + 4)
      else if c = CHR ''L'' then lengths_small mem fmt (pp + 8)
      else if c = CHR ''P'' then
        unat (load64 pp mem) < 2 ^ 62 \<and>
        lengths_small mem fmt (pp + 8 + unat (load64 pp mem))
      else if c = CHR ''x'' then lengths_small mem fmt (pp + 4)
      else lengths_small mem fmt pp)"

section \<open>The progress loop of a context (ThreadContext.cpp)\<close>

text \<open>
  The classes \<^verbatim>\<open>Command\<close> and \<^verbatim>\<open>CommandQueue\<close> are not among the sources. A command
  carries its request identifier, the flag \<^verbatim>\<open>isVH\<close>, its result (status and return
  value, of type \<open>'r\<close>) and the two closures that \<^verbatim>\<open>(*cmd)()\<close> and
  \<^verbatim>\<open>(*cmd)(&m, payload, plen)\<close> call. The closures that \<^verbatim>\<open>callAsync\<close> and
  \<^verbatim>\<open>callVHAsync\<close> build set the result of the command and work on the send side of the
  peer and on host memory, the state \<open>'w\<close>; they return an integer.
\<close>

datatype veo_context_state = VEO_STATE_UNKNOWN | VEO_STATE_EXIT

record ('r, 'w) command =
  cmd_id :: "64 word"
  isVH :: bool
  cmd_result :: 'r
  submit_fn :: "'r \<Rightarrow> 'w \<Rightarrow> int \<times> 'r \<times> 'w"
  result_fn :: "urpc_mb \<Rightarrow> nat option \<Rightarrow> 64 word \<Rightarrow> 'r \<Rightarrow> 'w \<Rightarrow> int \<times> 'r \<times> 'w"

text \<open>
  Modelled from the spec: the three queues of \<^verbatim>\<open>CommandQueue\<close> are FIFOs.
  \<^verbatim>\<open>tryPopRequest\<close> and \<^verbatim>\<open>popInFlight\<close> remove the head or return a null pointer,
  \<^verbatim>\<open>pushInFlight\<close> and \<^verbatim>\<open>pushCompletion\<close> append.
\<close>

record ('r, 'w) thread_context =
  comq_request :: "('r, 'w) command list"
  comq_inflight :: "('r, 'w) command list"
  comq_completion :: "('r, 'w) command list"
  state :: veo_context_state
  up_recv :: transfer_queue
  world :: 'w

text \<open>
  Modelled from the spec: \<^verbatim>\<open>cancelAll\<close> of the missing \<^verbatim>\<open>CommandQueue\<close>, "drains
  pending and in-flight into completions with status canceled/error"; \<open>canceled\<close> sets
  that status.
\<close>

definition cancelAll ::
  "('r \<Rightarrow> 'r) \<Rightarrow> ('r, 'w) thread_context \<Rightarrow> ('r, 'w) thread_context" where
  "cancelAll canceled ctx =
     ctx\<lparr>comq_completion :=
           comq_completion ctx
             @ map (\<lambda>c. c\<lparr>cmd_result := canceled (cmd_result c)\<rparr>)
                 (comq_inflight ctx @ comq_request ctx),
         comq_inflight := [], comq_request := []\<rparr>"

text \<open>
  One pass of the \<^verbatim>\<open>do ... while\<close> loop of \<^verbatim>\<open>_progress_nolock\<close> throws, returns from
  the function, or reaches the loop condition \<^verbatim>\<open>recvd + sent > 0\<close>, whose value is the
  flag of \<open>Pass_done\<close>.
\<close>

datatype veo_exception = URPC_req_without_cmd "64 word"

datatype ('r, 'w) pass_result =
  Thrown veo_exception
| Returned "('r, 'w) thread_context"
| Pass_done bool "('r, 'w) thread_context" urpc_mb

text \<open>
  The second half of a pass, "try to submit a new command". The function
  \<^verbatim>\<open>urpc_next_send_slot\<close> is not among the sources and is the parameter
  \<open>next_send_slot\<close>. A command that is popped and neither completed nor pushed in
  flight is owned by the local \<^verbatim>\<open>cmd\<close> alone and is destroyed at the end of the pass.
\<close>

definition progress_send ::
  "('w \<Rightarrow> int) \<Rightarrow> nat \<Rightarrow> ('r, 'w) thread_context \<Rightarrow> urpc_mb \<Rightarrow> ('r, 'w) pass_result" where
  "progress_send next_send_slot recvd ctx m =
     (if next_send_slot (world ctx) < 0 then Pass_done (0 < recvd) ctx m
      else
        (case comq_request ctx of
           [] \<Rightarrow> Pass_done (0 < recvd) ctx m
         | cmd # rest \<Rightarrow>
             let ctx1 = ctx\<lparr>comq_request := rest\<rparr>
             in if isVH cmd
                then (if comq_inflight ctx1 = []
                      then (case submit_fn cmd (cmd_result cmd) (world ctx1) of
                              (rv, r, w) \<Rightarrow>
                                Pass_done True
                                  (ctx1\<lparr>world := w,
                                        comq_completion :=
                                          comq_completion ctx1 @ [cmd\<lparr>cmd_result := r\<rparr>]\<rparr>) m)
                      else Pass_done (0 < recvd) ctx1 m)
                else (case submit_fn cmd (cmd_result cmd) (world ctx1) of
                        (rv, r, w) \<Rightarrow>
                          if rv = 0
                          then Pass_done True
                                 (ctx1\<lparr>world := w,
                                       comq_inflight :=
                                         comq_inflight ctx1 @ [cmd\<lparr>cmd_result := r\<rparr>]\<rparr>) m
                          else Pass_done (0 < recvd) (ctx1\<lparr>world := w\<rparr>) m)))"

text \<open>A whole pass: "try to receive a command reply", then the second half.\<close>

definition progress_pass ::
  "nat \<Rightarrow> ('w \<Rightarrow> int) \<Rightarrow> ('r \<Rightarrow> 'r) \<Rightarrow> ('r, 'w) thread_context \<Rightarrow> urpc_mb
     \<Rightarrow> ('r, 'w) pass_result" where
  "progress_pass N next_send_slot canceled ctx m0 =
     (case urpc_get_cmd N (up_recv ctx) m0 of
        (req, m, q) \<Rightarrow>
          if 0 \<le>s req
          then (case comq_inflight ctx of
                  [] \<Rightarrow> Thrown (URPC_req_without_cmd req)
                | cmd # rest \<Rightarrow>
                    (case set_recv_payload m of
                       (payload, plen) \<Rightarrow>
                         (case result_fn cmd m payload plen (cmd_result cmd) (world ctx) of
                            (rv, r, w) \<Rightarrow>
                              (case urpc_slot_done q (REQ2SLOT N req) m of
                                 (m', q') \<Rightarrow>
                                   let ctx1 = ctx\<lparr>up_recv := q', world := w,
                                                   comq_inflight := rest,
                                                   comq_completion :=
                                                     comq_completion ctx
                                                       @ [cmd\<lparr>cmd_result := r\<rparr>]\<rparr>
                                   in if rv < 0
                                      then Returned
                                             (cancelAll canceled (ctx1\<lparr>state := VEO_STATE_EXIT\<rparr>))
                                      else progress_send next_send_slot 1 ctx1 m'))))
          else progress_send next_send_slot 0 (ctx\<lparr>up_recv := q\<rparr>) m)"

text \<open>
  The loop ends: a pass that goes round again has fetched a reply or popped a request,
  and no pass adds a request or a reply.
\<close>

definition progress_measure :: "('r, 'w) thread_context \<Rightarrow> nat" where
  "progress_measure ctx =
     unat (last_put_req (up_recv ctx) - last_get_req (up_recv ctx)) + length (comq_request ctx)"

function progress_loop ::
  "nat \<Rightarrow> ('w \<Rightarrow> int) \<Rightarrow> ('r \<Rightarrow> 'r) \<Rightarrow> ('r, 'w) thread_context \<Rightarrow> urpc_mb
     \<Rightarrow> veo_exception + ('r, 'w) thread_context" where
  "progress_loop N next_send_slot canceled ctx m =
     (case progress_pass N next_send_slot canceled ctx m of
        Thrown e \<Rightarrow> Inl e
      | Returned ctx' \<Rightarrow> Inr ctx'
      | Pass_done again ctx' m' \<Rightarrow>
          if again then progress_loop N next_send_slot canceled ctx' m' else Inr ctx')"
  by pat_completeness auto
termination
proof (relation "measure (\<lambda>(N, nss, canceled, ctx, m). progress_measure ctx)")
  show "wf (measure (\<lambda>(N, nss, canceled, ctx, m). progress_measure ctx))" by simp
next
  fix N :: nat and nss :: "'w \<Rightarrow> int" and canceled :: "'r \<Rightarrow> 'r"
    and ctx :: "('r, 'w) thread_context" and m0 again ctx' m'
  assume "progress_pass N nss canceled ctx m0 = Pass_done again ctx' m'" and "again"
  then have pass: "progress_pass N nss canceled ctx m0 = Pass_done True ctx' m'" by simp
  have send: "up_recv c' = up_recv c \<and>
       (length (comq_request c') < length (comq_request c) \<or>
        0 < recvd \<and> length (comq_request c') \<le> length (comq_request c))"
    if "progress_send nss recvd c m = Pass_done True c' m'"
    for recvd m and c c' :: "('r, 'w) thread_context"
    using that
    by (auto simp: progress_send_def Let_def split: if_splits list.splits prod.splits)
  obtain req m q where g: "urpc_get_cmd N (up_recv ctx) m0 = (req, m, q)"
    by (cases "urpc_get_cmd N (up_recv ctx) m0") auto
  let ?lp = "last_put_req (up_recv ctx)" and ?lg = "last_get_req (up_recv ctx)"
  have lp: "last_put_req q = ?lp" using g by (auto simp: urpc_get_cmd_def Let_def split: if_splits)
  have same: "q = up_recv ctx \<and> req = - 1" if "?lp = ?lg"
    using g that by (simp add: urpc_get_cmd_def)
  have less: "unat (last_put_req q - last_get_req q) < unat (?lp - ?lg)" if ne: "?lp \<noteq> ?lg"
  proof -
    have nz: "?lp - ?lg \<noteq> 0" using ne by simp
    have e: "?lp - (?lg + 1) = ?lp - ?lg - 1" by simp
    have "unat (?lp - ?lg - 1) < unat (?lp - ?lg)"
      using nz by (simp add: unat_minus_one unat_gt_0)
    then have "unat (?lp - (?lg + 1)) < unat (?lp - ?lg)" unfolding e .
    then show ?thesis using g ne by (auto simp: urpc_get_cmd_def Let_def)
  qed
  have "progress_measure ctx' < progress_measure ctx"
  proof (cases "0 \<le>s req")
    case False
    with pass g have s: "progress_send nss 0 (ctx\<lparr>up_recv := q\<rparr>) m = Pass_done True ctx' m'"
      by (simp add: progress_pass_def)
    show ?thesis
    proof (cases "?lp = ?lg")
      case True
      with send [OF s] same show ?thesis by (auto simp: progress_measure_def)
    next
      case ne: False
      with send [OF s] less lp show ?thesis by (auto simp: progress_measure_def)
    qed
  next
    case True
    have ne: "?lp \<noteq> ?lg"
    proof
      assume "?lp = ?lg"
      with same have "req = - 1" by simp
      with True show False by (simp add: word_sle_eq)
    qed
    from pass g True obtain cmd rest r w mx q' where
      sd: "urpc_slot_done q (REQ2SLOT N req) m = (mx, q')"
      and s: "progress_send nss 1
                (ctx\<lparr>up_recv := q', world := w, comq_inflight := rest,
                     comq_completion := comq_completion ctx @ [cmd\<lparr>cmd_result := r\<rparr>]\<rparr>) mx
              = Pass_done True ctx' m'"
      by (auto simp: progress_pass_def Let_def split: list.splits prod.splits if_splits)
    have q': "last_put_req q' = last_put_req q" "last_get_req q' = last_get_req q"
      using sd by (auto simp: urpc_slot_done_def Let_def)
    from send [OF s] less [OF ne] lp q' show ?thesis
      by (auto simp: progress_measure_def)
  qed
  then show "((N, nss, canceled, ctx', m'), (N, nss, canceled, ctx, m0))
          \<in> measure (\<lambda>(N, nss, canceled, ctx, m). progress_measure ctx)"
    by simp
qed

declare progress_loop.simps [simp del]

text \<open>
  \<^verbatim>\<open>_progress_nolock\<close>: the parameter \<^verbatim>\<open>ops\<close> is decremented in every pass and read
  nowhere (the test \<^verbatim>\<open>ops != 0\<close> of the loop condition is commented out).
\<close>

definition progress_nolock ::
  "nat \<Rightarrow> ('w \<Rightarrow> int) \<Rightarrow> ('r \<Rightarrow> 'r) \<Rightarrow> ('r, 'w) thread_context \<Rightarrow> int
     \<Rightarrow> veo_exception + ('r, 'w) thread_context" where
  "progress_nolock N next_send_slot canceled ctx ops =
     progress_loop N next_send_slot canceled ctx mb_zero"

text \<open>
  A context on which a remote call (request 1) and then a host-side call (request 2)
  have been submitted. The closures record what they do.
\<close>

datatype event = Sent "64 word" | Replied "64 word" | Host_function_ran "64 word"

definition remote_call :: "64 word \<Rightarrow> (unit, event list) command" where
  "remote_call i =
     \<lparr>cmd_id = i, isVH = False, cmd_result = (),
      submit_fn = (\<lambda>r w. (0, r, w @ [Sent i])),
      result_fn = (\<lambda>m payload plen r w. (0, r, w @ [Replied i]))\<rparr>"

definition vh_call :: "64 word \<Rightarrow> (unit, event list) command" where
  "vh_call i =
     \<lparr>cmd_id = i, isVH = True, cmd_result = (),
      submit_fn = (\<lambda>r w. (0, r, w @ [Host_function_ran i])),
      result_fn = (\<lambda>m payload plen r w. (0, r, w))\<rparr>"

definition empty_recv :: transfer_queue where
  "empty_recv = \<lparr>sender_flags = 0, receiver_flags = 0, last_put_req = - 1, last_get_req = - 1,
                  mb = replicate 4 mb_zero\<rparr>"

definition reply_arrived :: transfer_queue where
  "reply_arrived = empty_recv\<lparr>last_put_req := 0,
                               mb := [\<lparr>c_cmd = 2, c_offs = 0, c_len = 0\<rparr>, mb_zero, mb_zero, mb_zero]\<rparr>"

definition mixed_context :: "(unit, event list) thread_context" where
  "mixed_context =
     \<lparr>comq_request = [remote_call 1, vh_call 2], comq_inflight = [], comq_completion = [],
      state = VEO_STATE_UNKNOWN, up_recv = empty_recv, world = []\<rparr>"

definition queue_ids :: "('r, 'w) thread_context \<Rightarrow> 64 word list \<times> 64 word list \<times> 64 word list" where
  "queue_ids ctx =
     (map cmd_id (comq_request ctx), map cmd_id (comq_inflight ctx),
      map cmd_id (comq_completion ctx))"

section \<open>Creation of a peer (vh_urpc.c)\<close>

text \<open>
  The first steps of \<^verbatim>\<open>vh_urpc_peer_create\<close>: the check of the number of peers, the
  \<^verbatim>\<open>malloc\<close> of the peer record and \<^verbatim>\<open>memset(up, 0, sizeof(up))\<close>, where \<^verbatim>\<open>up\<close> is
  a pointer (8 bytes on the host). The result is the block of the record as it is when
  the function starts to fill in its fields, \<open>None\<close> where the function returns
  \<^verbatim>\<open>NULL\<close>. What \<^verbatim>\<open>malloc\<close> returns is not initialised: the bytes of the block are a
  parameter.
\<close>

definition memset :: "8 word list \<Rightarrow> 8 word \<Rightarrow> nat \<Rightarrow> 8 word list" where
  "memset block c n = replicate (min n (length block)) c @ drop n block"

definition sizeof_pointer :: nat where
  "sizeof_pointer = 8"

definition vh_urpc_peer_create_block ::
  "nat \<Rightarrow> nat \<Rightarrow> 8 word list option \<Rightarrow> 8 word list option" where
  "vh_urpc_peer_create_block num_peers max_peers malloc_result =
     (if num_peers = max_peers then None
      else case malloc_result of
             None \<Rightarrow> None
           | Some block \<Rightarrow> Some (memset block 0 sizeof_pointer))"

section \<open>Properties of the initial state\<close>

lemma comm_init_loop_length:
  "length (mb (tq (comm_init_loop N i uc))) = length (mb (tq uc)) \<and>
   length (mlist (comm_init_loop N i uc)) = length (mlist uc)"
proof (induction N i uc rule: comm_init_loop.induct)
  case (1 N i uc)
  show ?case
  proof (cases "i < N")
    case True
    with 1 show ?thesis by (subst (1 2) comm_init_loop.simps) simp
  next
    case False
    then show ?thesis by (subst (1 2) comm_init_loop.simps) simp
  qed
qed

lemma comm_init_loop_nth:
  assumes "j < length (mb (tq uc))" "j < length (mlist uc)"
  shows "mb (tq (comm_init_loop N i uc)) ! j =
           (if i \<le> j \<and> j < N then mb_zero else mb (tq uc) ! j) \<and>
         mlist (comm_init_loop N i uc) ! j =
           (if i \<le> j \<and> j < N then ml_zero else mlist uc ! j)"
  using assms
proof (induction N i uc rule: comm_init_loop.induct)
  case (1 N i uc)
  show ?case
  proof (cases "i < N")
    case True
    let ?uc = "uc\<lparr>mlist := (mlist uc)[i := ml_zero],
                   tq := (tq uc)\<lparr>mb := (mb (tq uc))[i := mb_zero]\<rparr>\<rparr>"
    have step: "comm_init_loop N i uc = comm_init_loop N (Suc i) ?uc"
      using True by (subst comm_init_loop.simps) simp
    have ih: "mb (tq (comm_init_loop N (Suc i) ?uc)) ! j =
                (if Suc i \<le> j \<and> j < N then mb_zero else mb (tq ?uc) ! j) \<and>
              mlist (comm_init_loop N (Suc i) ?uc) ! j =
                (if Suc i \<le> j \<and> j < N then ml_zero else mlist ?uc ! j)"
      using "1.IH" [OF True] "1.prems" by simp
    show ?thesis
      unfolding step using ih "1.prems" True
      by (cases "j = i") (auto simp: nth_list_update)
  next
    case False
    then show ?thesis by (subst (1 2) comm_init_loop.simps) auto
  qed
qed

text \<open>
  Claim C10. After \<^verbatim>\<open>vh_urpc_comm_init\<close> every one of the \<open>N\<close> mailbox slots is
  empty (all fields 0, in particular \<open>cmd = 0\<close>), every \<open>mlist\<close> entry is zero, both flag
  words are 0, both sequence counters are \<open>-1\<close>, and \<open>free_begin = 0\<close>,
  \<open>free_end = URPC_DATA_BUFF_LEN\<close>: the queue invariant
  \<open>last_get_req \<le> last_put_req \<le> last_get_req + N\<close> and the allocator invariant
  \<open>free_begin \<le> free_end \<le> D\<close> hold, with all \<open>D\<close> bytes of the ring free.
\<close>

theorem vh_urpc_comm_init_initial_state:
  assumes "length (mb (tq uc)) = N" and "length (mlist uc) = N"
  shows "mb (tq (vh_urpc_comm_init N D uc)) = replicate N mb_zero \<and>
         list_all (\<lambda>m. c_cmd m = URPC_CMD_NONE) (mb (tq (vh_urpc_comm_init N D uc))) \<and>
         mlist (vh_urpc_comm_init N D uc) = replicate N ml_zero \<and>
         sender_flags (tq (vh_urpc_comm_init N D uc)) = 0 \<and>
         receiver_flags (tq (vh_urpc_comm_init N D uc)) = 0 \<and>
         last_put_req (tq (vh_urpc_comm_init N D uc)) = - 1 \<and>
         last_get_req (tq (vh_urpc_comm_init N D uc)) = - 1 \<and>
         free_begin (vh_urpc_comm_init N D uc) = 0 \<and>
         free_end (vh_urpc_comm_init N D uc) = D \<and>
         sint (last_get_req (tq (vh_urpc_comm_init N D uc)))
           \<le> sint (last_put_req (tq (vh_urpc_comm_init N D uc))) \<and>
         sint (last_put_req (tq (vh_urpc_comm_init N D uc)))
           \<le> sint (last_get_req (tq (vh_urpc_comm_init N D uc))) + int N \<and>
         free_begin (vh_urpc_comm_init N D uc) \<le> free_end (vh_urpc_comm_init N D uc) \<and>
         free_end (vh_urpc_comm_init N D uc) \<le> D \<and>
         free_end (vh_urpc_comm_init N D uc) - free_begin (vh_urpc_comm_init N D uc) = D"
proof -
  let ?l = "comm_init_loop N 0 uc"
  have len: "length (mb (tq ?l)) = N" "length (mlist ?l) = N"
    using comm_init_loop_length [of N 0 uc] assms by simp_all
  have nth: "\<And>j. j < N \<Longrightarrow> mb (tq ?l) ! j = mb_zero \<and> mlist ?l ! j = ml_zero"
    using comm_init_loop_nth [of _ uc N 0] assms by simp
  have mbs: "mb (tq ?l) = replicate N mb_zero"
    using len nth by (intro nth_equalityI) simp_all
  have mls: "mlist ?l = replicate N ml_zero"
    using len nth by (intro nth_equalityI) simp_all
  have cmds: "list_all (\<lambda>m. c_cmd m = URPC_CMD_NONE) (replicate N mb_zero)"
    by (simp add: list_all_iff mb_zero_def URPC_CMD_NONE_def)
  show ?thesis
    using mbs mls cmds by (simp add: vh_urpc_comm_init_def Let_def)
qed

theorem vh_urpc_comm_init_initial_state_witness:
  "mb (tq (vh_urpc_comm_init 2 1024
      \<lparr>tq = \<lparr>sender_flags = 5, receiver_flags = 6, last_put_req = 7, last_get_req = 3,
             mb = [\<lparr>c_cmd = 1, c_offs = 8, c_len = 16\<rparr>, \<lparr>c_cmd = 2, c_offs = 24, c_len = 8\<rparr>]\<rparr>,
       mlist = [\<lparr>b_offs = 8, b_len = 16\<rparr>, \<lparr>b_offs = 24, b_len = 8\<rparr>],
       free_begin = 32, free_end = 64\<rparr>)) = [mb_zero, mb_zero] \<and>
   free_end (vh_urpc_comm_init 2 1024
      \<lparr>tq = \<lparr>sender_flags = 5, receiver_flags = 6, last_put_req = 7, last_get_req = 3,
             mb = [\<lparr>c_cmd = 1, c_offs = 8, c_len = 16\<rparr>, \<lparr>c_cmd = 2, c_offs = 24, c_len = 8\<rparr>]\<rparr>,
       mlist = [\<lparr>b_offs = 8, b_len = 16\<rparr>, \<lparr>b_offs = 24, b_len = 8\<rparr>],
       free_begin = 32, free_end = 64\<rparr>) = 1024"
  using vh_urpc_comm_init_initial_state [of
      "\<lparr>tq = \<lparr>sender_flags = 5, receiver_flags = 6, last_put_req = 7, last_get_req = 3,
             mb = [\<lparr>c_cmd = 1, c_offs = 8, c_len = 16\<rparr>, \<lparr>c_cmd = 2, c_offs = 24, c_len = 8\<rparr>]\<rparr>,
       mlist = [\<lparr>b_offs = 8, b_len = 16\<rparr>, \<lparr>b_offs = 24, b_len = 8\<rparr>],
       free_begin = 32, free_end = 64\<rparr>" 2 1024]
  by (simp add: numeral_2_eq_2)

section \<open>The wait loop of the allocator\<close>




lemma out_of_order_state_reachable: "out_of_order_run = Some out_of_order_state"
  by code_simp



lemma ring_in_use_reachable:
  "send_payload 4 1024 1000 (vh_urpc_comm_init 4 1024 (blank_comm 4)) 1 1000 [] = Some ring_in_use"
  by code_simp


section \<open>The walk of the garbage collector\<close>


















section \<open>Invariants of the transfer queue\<close>

lemma sint64_succ:
  fixes w :: "64 word"
  assumes "sint w < 2 ^ 63 - 1"
  shows "sint (w + 1) = sint w + 1"
proof -
  have lo: "- (2 ^ 63) \<le> sint w" using sint_ge [of w] by simp
  have "sint (w + 1) = signed_take_bit 63 (sint w + 1)"
    by (simp add: sint_word_add)
  also have "\<dots> = sint w + 1"
    using lo assms by (intro signed_take_bit_int_eq_self) simp_all
  finally show ?thesis .
qed

lemma unat64_of_sint:
  fixes w :: "64 word"
  assumes "0 \<le> sint w"
  shows "unat w = nat (sint w)"
proof -
  have s: "sint w = signed_take_bit 63 (uint w)" using sint_uint [of w] by simp
  have hi: "uint w < 2 ^ 63"
  proof (rule ccontr)
    assume "\<not> uint w < 2 ^ 63"
    then have "2 ^ 63 \<le> uint w" by simp
    then have "signed_take_bit 63 (uint w) \<le> uint w - 2 ^ Suc 63"
      by (rule signed_take_bit_int_less_eq)
    then have "sint w \<le> uint w - 2 ^ Suc 63" unfolding s .
    moreover have "uint w < 2 ^ 64" using uint_bounded [of w] by simp
    ultimately have "sint w < 0" by simp
    with assms show False by simp
  qed
  have "- (2 ^ 63) \<le> (0::int)" by simp
  also have "0 \<le> uint w" by simp
  finally have lo: "- (2 ^ 63) \<le> uint w" .
  have "signed_take_bit 63 (uint w) = uint w"
    using lo hi by (rule signed_take_bit_int_eq_self)
  then have e: "sint w = uint w" unfolding s .
  show ?thesis unfolding e by (rule unat_eq_nat_uint)
qed

lemma tq_inv_init:
  assumes "length (mb (tq uc0)) = N" "length (mlist uc0) = N"
  shows "tq_inv N 0 (vh_urpc_comm_init N D uc0, [])"
  using vh_urpc_comm_init_initial_state [OF assms, of D]
  by (auto simp: tq_inv_def)

lemma REQ2SLOT_sint:
  fixes r :: "64 word"
  assumes "0 \<le> sint r"
  shows "int (REQ2SLOT N r) = sint r mod int N"
  using unat64_of_sint [OF assms] assms by (simp add: REQ2SLOT_def zmod_int)

lemma REQ2SLOT_inj:
  fixes r w :: "64 word"
  assumes "0 \<le> sint r" "0 \<le> sint w" "sint r \<le> sint w" "sint w - sint r < int N"
    and "REQ2SLOT N r = REQ2SLOT N w"
  shows "r = w"
proof -
  have "sint r mod int N = sint w mod int N"
    using assms(5) REQ2SLOT_sint [OF assms(1), of N] REQ2SLOT_sint [OF assms(2), of N] by simp
  then have "int N dvd sint r - sint w" by (simp add: mod_eq_dvd_iff)
  then have "int N dvd sint w - sint r" by (simp add: dvd_diff_commute)
  then have "sint w - sint r = 0 \<or> int N \<le> sint w - sint r"
    using assms(3) by (metis diff_ge_0_iff_ge dvd_imp_le_int abs_of_nonneg abs_of_nat)
  with assms(4) have "sint w = sint r" by simp
  then show ?thesis using signed_word_eqI by metis
qed

lemma REQ2SLOT_period:
  fixes r w :: "64 word"
  assumes "0 \<le> sint r" "sint w = sint r + int N"
  shows "REQ2SLOT N w = REQ2SLOT N r"
proof -
  have w: "0 \<le> sint w" using assms by simp
  have "int (REQ2SLOT N w) = int (REQ2SLOT N r)"
    using REQ2SLOT_sint [OF assms(1), of N] REQ2SLOT_sint [OF w, of N] assms(2) by simp
  then show ?thesis by simp
qed

lemma sint64_of_int:
  assumes "- 1 \<le> k" "k < 2 ^ 63"
  shows "sint (word_of_int k :: 64 word) = k"
proof -
  have "- (2 ^ 63) \<le> (- 1 :: int)" by simp
  also have "\<dots> \<le> k" by (rule assms(1))
  finally have lo: "- (2 ^ 63) \<le> k" .
  have "sint (word_of_int k :: 64 word) = signed_take_bit 63 k" by (simp add: sint_sbintrunc')
  also have "\<dots> = k" using lo assms(2) by (rule signed_take_bit_int_eq_self)
  finally show ?thesis .
qed

lemma tq_inv_get:
  assumes "tq_inv N n s"
  shows "tq_inv N (Suc n) (tq_step N D s Get)"
proof -
  obtain uc held where s: "s = (uc, held)" by (cases s)
  let ?P = "sint (last_put_req (tq uc))" and ?G = "sint (last_get_req (tq uc))"
  from assms have len: "length (mb (tq uc)) = N" and G: "- 1 \<le> ?G" "?G \<le> ?P"
    and PG: "?P \<le> ?G + int N" and Pn: "?P < int n" and dist: "distinct held"
    and held: "\<forall>r\<in>set held. 0 \<le> sint r \<and> sint r \<le> ?G \<and> ?P - int N < sint r"
    and occ: "\<forall>r. 0 \<le> sint r \<and> ?P - int N < sint r \<and> sint r \<le> ?P \<and>
                  (?G < sint r \<or> r \<in> set held)
                  \<longrightarrow> c_cmd (mb (tq uc) ! REQ2SLOT N r) \<noteq> URPC_CMD_NONE"
    unfolding s tq_inv_def by simp_all
  show ?thesis
  proof (cases "last_put_req (tq uc) = last_get_req (tq uc)")
    case True
    have "\<not> (0 :: 64 word) \<le>s - 1" by (simp add: word_sle_eq)
    with True have "tq_step N D s Get = s"
      by (simp add: s tq_step_def urpc_get_cmd_def)
    moreover have "?P < int (Suc n)" using Pn by simp
    ultimately show ?thesis using len G PG dist held occ unfolding s tq_inv_def by simp
  next
    case False
    let ?req = "last_get_req (tq uc) + 1"
    from False have "?P \<noteq> ?G" using signed_word_eqI by blast
    with G have lt: "?G < ?P" by simp
    have "?P < 2 ^ 63" using sint_lt [of "last_put_req (tq uc)"] by simp
    with lt have req: "sint ?req = ?G + 1" by (intro sint64_succ) simp
    with G have pos: "0 \<le>s ?req" by (simp add: word_sle_eq)
    have st: "tq_step N D s Get = (uc\<lparr>tq := (tq uc)\<lparr>last_get_req := ?req\<rparr>\<rparr>, held @ [?req])"
      using False pos by (simp add: s tq_step_def urpc_get_cmd_def Let_def)
    have new: "?req \<notin> set held"
    proof
      assume "?req \<in> set held"
      with held have "sint ?req \<le> ?G" by blast
      with req show False by simp
    qed
    have h': "0 \<le> sint r \<and> sint r \<le> ?G + 1 \<and> ?P - int N < sint r"
      if "r \<in> set (held @ [?req])" for r
    proof (cases "r = ?req")
      case True
      with req G PG show ?thesis by simp
    next
      case False
      with that have "r \<in> set held" by simp
      with held have "0 \<le> sint r \<and> sint r \<le> ?G \<and> ?P - int N < sint r" by blast
      then show ?thesis by simp
    qed
    have o': "c_cmd (mb (tq uc) ! REQ2SLOT N r) \<noteq> URPC_CMD_NONE"
      if "0 \<le> sint r" "?P - int N < sint r" "sint r \<le> ?P"
        "?G + 1 < sint r \<or> r \<in> set (held @ [?req])" for r
    proof -
      from that(4) have "?G < sint r \<or> r \<in> set held"
        using req by auto
      with that(1,2,3) occ show ?thesis by blast
    qed
    have "?P < int (Suc n)" using Pn by simp
    with len G lt PG dist new h' o' req show ?thesis
      unfolding st tq_inv_def by simp
  qed
qed

lemma tq_inv_done:
  assumes "tq_inv N n s" "0 < N"
  shows "tq_inv N (Suc n) (tq_step N D s (Done req m))"
proof -
  obtain uc held where s: "s = (uc, held)" by (cases s)
  let ?P = "sint (last_put_req (tq uc))" and ?G = "sint (last_get_req (tq uc))"
  from assms(1) have len: "length (mb (tq uc)) = N" and G: "- 1 \<le> ?G" "?G \<le> ?P"
    and PG: "?P \<le> ?G + int N" and Pn: "?P < int n" and dist: "distinct held"
    and held: "\<forall>r\<in>set held. 0 \<le> sint r \<and> sint r \<le> ?G \<and> ?P - int N < sint r"
    and occ: "\<forall>r. 0 \<le> sint r \<and> ?P - int N < sint r \<and> sint r \<le> ?P \<and>
                  (?G < sint r \<or> r \<in> set held)
                  \<longrightarrow> c_cmd (mb (tq uc) ! REQ2SLOT N r) \<noteq> URPC_CMD_NONE"
    unfolding s tq_inv_def by simp_all
  have Pn': "?P < int (Suc n)" using Pn by simp
  show ?thesis
  proof (cases "req \<in> set held")
    case False
    then have "tq_step N D s (Done req m) = s" by (simp add: s tq_step_def)
    then show ?thesis using len G PG Pn' dist held occ unfolding s tq_inv_def by simp
  next
    case True
    let ?mb = "(mb (tq uc))[REQ2SLOT N req := m\<lparr>c_cmd := URPC_CMD_NONE\<rparr>]"
    have st: "tq_step N D s (Done req m) = (uc\<lparr>tq := (tq uc)\<lparr>mb := ?mb\<rparr>\<rparr>, remove1 req held)"
      using True by (simp add: s tq_step_def urpc_slot_done_def Let_def)
    from True held have rq: "0 \<le> sint req" "sint req \<le> ?G" "?P - int N < sint req" by blast+
    have set': "set (remove1 req held) = set held - {req}" using dist by simp
    have h': "\<forall>r\<in>set (remove1 req held). 0 \<le> sint r \<and> sint r \<le> ?G \<and> ?P - int N < sint r"
      using held set' by simp
    have o': "c_cmd (?mb ! REQ2SLOT N r) \<noteq> URPC_CMD_NONE"
      if r: "0 \<le> sint r" "?P - int N < sint r" "sint r \<le> ?P"
        "?G < sint r \<or> r \<in> set (remove1 req held)" for r
    proof -
      have ne: "r \<noteq> req"
      proof
        assume "r = req"
        with r(4) rq(2) set' show False by simp
      qed
      have "REQ2SLOT N r \<noteq> REQ2SLOT N req"
      proof
        assume e: "REQ2SLOT N r = REQ2SLOT N req"
        show False
        proof (cases "sint r \<le> sint req")
          case True
          have "sint req - sint r < int N" using r(2) rq(2) G(2) by simp
          from REQ2SLOT_inj [OF r(1) rq(1) True this e] ne show False by simp
        next
          case False
          then have le: "sint req \<le> sint r" by simp
          have "sint r - sint req < int N" using r(3) rq(3) by simp
          from REQ2SLOT_inj [OF rq(1) r(1) le this e [symmetric]] ne show False by simp
        qed
      qed
      moreover have "sint (last_get_req (tq uc)) < sint r \<or> r \<in> set held"
        using r(4) set' by auto
      with occ r(1,2,3) have "c_cmd (mb (tq uc) ! REQ2SLOT N r) \<noteq> URPC_CMD_NONE"
        by blast
      ultimately show ?thesis by simp
    qed
    from len G PG Pn' dist h' o' show ?thesis unfolding st tq_inv_def by simp
  qed
qed

lemma tq_inv_put:
  assumes "tq_inv N n s" "0 < N" "N < 2 ^ 63" "n < 2 ^ 63" "c_cmd m \<noteq> URPC_CMD_NONE"
  shows "tq_inv N (Suc n) (tq_step N D s (Put m))"
proof -
  obtain uc held where s: "s = (uc, held)" by (cases s)
  let ?P = "sint (last_put_req (tq uc))" and ?G = "sint (last_get_req (tq uc))"
  from assms(1) have len: "length (mb (tq uc)) = N" and G: "- 1 \<le> ?G" "?G \<le> ?P"
    and PG: "?P \<le> ?G + int N" and Pn: "?P < int n" and dist: "distinct held"
    and held: "\<forall>r\<in>set held. 0 \<le> sint r \<and> sint r \<le> ?G \<and> ?P - int N < sint r"
    and occ: "\<forall>r. 0 \<le> sint r \<and> ?P - int N < sint r \<and> sint r \<le> ?P \<and>
                  (?G < sint r \<or> r \<in> set held)
                  \<longrightarrow> c_cmd (mb (tq uc) ! REQ2SLOT N r) \<noteq> URPC_CMD_NONE"
    unfolding s tq_inv_def by simp_all
  have Pn': "?P < int (Suc n)" using Pn by simp
  show ?thesis
  proof (cases "urpc_put_cmd N D uc m")
    case None
    then have "tq_step N D s (Put m) = s" by (simp add: s tq_step_def)
    then show ?thesis using len G PG Pn' dist held occ unfolding s tq_inv_def by simp
  next
    case (Some a)
    let ?w = "last_put_req (tq uc) + 1"
    let ?slot = "REQ2SLOT N ?w"
    have n63: "int n < 2 ^ 63" using assms(4) by (metis of_nat_less_numeral_power_cancel_iff)
    with Pn have w: "sint ?w = ?P + 1" by (intro sint64_succ) simp
    have wpos: "0 \<le> sint ?w" using w G by simp
    have empty: "c_cmd (mb (tq uc) ! ?slot) = URPC_CMD_NONE"
      using Some by (simp add: urpc_put_cmd_def Let_def split: if_splits)
    have slotN: "?slot < N" using assms(2) by (simp add: REQ2SLOT_def)
    have old_done: "\<not> (?G < sint r \<or> r \<in> set held)" if "sint r = ?P + 1 - int N" "0 \<le> sint r" for r
    proof
      assume a: "?G < sint r \<or> r \<in> set held"
      have "sint r \<le> ?P" using that(1) assms(2) by simp
      with occ a that have "c_cmd (mb (tq uc) ! REQ2SLOT N r) \<noteq> URPC_CMD_NONE" by simp
      moreover have "REQ2SLOT N ?w = REQ2SLOT N r"
        using REQ2SLOT_period [OF that(2), of ?w N] w that(1) by simp
      ultimately show False using empty by simp
    qed
    have PG': "?P + 1 \<le> ?G + int N"
    proof (rule ccontr)
      assume "\<not> ?P + 1 \<le> ?G + int N"
      with PG have e: "?P + 1 - int N = ?G + 1" by simp
      let ?r = "word_of_int (?G + 1) :: 64 word"
      have "?G + 1 < 2 ^ 63" using G(2) Pn n63 by simp
      with G have r: "sint ?r = ?G + 1" by (intro sint64_of_int) simp_all
      from old_done [of ?r] r e G show False by simp
    qed
    have st: "tq_step N D s (Put m) =
               (uc\<lparr>tq := (tq uc)\<lparr>mb := (mb (tq uc))[?slot := m], last_put_req := ?w\<rparr>,
                   mlist := mlist (snd a), free_end := free_end (snd a)\<rparr>, held)"
      using Some empty by (auto simp: s tq_step_def urpc_put_cmd_def Let_def)
    have h': "0 \<le> sint r \<and> sint r \<le> ?G \<and> ?P + 1 - int N < sint r" if "r \<in> set held" for r
    proof -
      from that held have a: "0 \<le> sint r" "sint r \<le> ?G" "?P - int N < sint r" by blast+
      have "sint r \<noteq> ?P + 1 - int N" using old_done [of r] a(1) that by blast
      with a show ?thesis by simp
    qed
    have o': "c_cmd ((mb (tq uc))[?slot := m] ! REQ2SLOT N r) \<noteq> URPC_CMD_NONE"
      if r: "0 \<le> sint r" "?P + 1 - int N < sint r" "sint r \<le> ?P + 1"
        "?G < sint r \<or> r \<in> set held" for r
    proof (cases "r = ?w")
      case True
      with slotN len assms(5) show ?thesis by simp
    next
      case False
      then have "sint r \<noteq> sint ?w" using signed_word_eqI by blast
      with r(3) w have le: "sint r \<le> ?P" by simp
      have "REQ2SLOT N r \<noteq> ?slot"
      proof
        assume e: "REQ2SLOT N r = ?slot"
        have "sint r \<le> sint ?w" using le w by simp
        from REQ2SLOT_inj [OF r(1) wpos this _ e] r(2) w False show False by simp
      qed
      moreover have "c_cmd (mb (tq uc) ! REQ2SLOT N r) \<noteq> URPC_CMD_NONE"
        using occ r(1,2,4) le by simp
      ultimately show ?thesis by simp
    qed
    have "?P + 1 < int (Suc n)" using Pn by simp
    moreover have "?G \<le> ?P + 1" using G by simp
    ultimately show ?thesis using len G(1) PG' dist h' o' w
      unfolding st tq_inv_def by simp
  qed
qed

lemma nonempty_puts_append:
  "nonempty_puts (xs @ ys) = (nonempty_puts xs \<and> nonempty_puts ys)"
  by (induction xs rule: nonempty_puts.induct) simp_all

lemma tq_inv_run:
  assumes "0 < N" "N < 2 ^ 63" "length (mb (tq uc0)) = N" "length (mlist uc0) = N"
  shows "nonempty_puts steps \<Longrightarrow> length steps < 2 ^ 63
           \<Longrightarrow> tq_inv N (length steps) (tq_run N D uc0 steps)"
proof (induction steps rule: rev_induct)
  case Nil
  show ?case using tq_inv_init [OF assms(3,4)] by (simp add: tq_run_def)
next
  case (snoc st steps)
  then have inv: "tq_inv N (length steps) (tq_run N D uc0 steps)"
    and n: "length steps < 2 ^ 63"
    by (simp_all add: nonempty_puts_append)
  have run: "tq_run N D uc0 (steps @ [st]) = tq_step N D (tq_run N D uc0 steps) st"
    by (simp add: tq_run_def)
  show ?case
  proof (cases st)
    case (Put m)
    with snoc.prems have "c_cmd m \<noteq> URPC_CMD_NONE" by (simp add: nonempty_puts_append)
    from tq_inv_put [OF inv assms(1,2) n this] Put run show ?thesis by simp
  next
    case Get
    with tq_inv_get [OF inv] run show ?thesis by simp
  next
    case (Done req m)
    with tq_inv_done [OF inv assms(1)] run show ?thesis by simp
  qed
qed

lemma tq_step_change_ok: "slots_change_ok N (fst s) (fst (tq_step N D s st))"
proof -
  obtain uc held where s: "s = (uc, held)" by (cases s)
  show ?thesis
  proof (cases st)
    case Get
    then show ?thesis
      by (simp add: s slots_change_ok_def cmd_change_ok_def tq_step_def urpc_get_cmd_def Let_def
          list_all_iff)
  next
    case (Done req m)
    have "cmd_change_ok (c_cmd (mb (tq uc) ! i))
            (c_cmd ((mb (tq uc))[REQ2SLOT N req := m\<lparr>c_cmd := URPC_CMD_NONE\<rparr>] ! i))" for i
      by (cases "i = REQ2SLOT N req"; cases "REQ2SLOT N req < length (mb (tq uc))")
         (simp_all add: cmd_change_ok_def not_less list_update_beyond)
    with Done show ?thesis
      by (simp add: s slots_change_ok_def tq_step_def urpc_slot_done_def Let_def list_all_iff
          cmd_change_ok_def)
  next
    case (Put m)
    show ?thesis
    proof (cases "urpc_put_cmd N D uc m")
      case None
      with Put show ?thesis
        by (simp add: s slots_change_ok_def cmd_change_ok_def tq_step_def list_all_iff)
    next
      case (Some a)
      let ?slot = "REQ2SLOT N (last_put_req (tq uc) + 1)"
      have empty: "c_cmd (mb (tq uc) ! ?slot) = URPC_CMD_NONE"
        using Some by (simp add: urpc_put_cmd_def Let_def split: if_splits)
      have res: "mb (tq (fst (tq_step N D s (Put m)))) = (mb (tq uc))[?slot := m]"
        using Some empty by (auto simp: s tq_step_def urpc_put_cmd_def Let_def)
      have "cmd_change_ok (c_cmd (mb (tq uc) ! i)) (c_cmd ((mb (tq uc))[?slot := m] ! i))" for i
        using empty by (cases "i = ?slot") (simp_all add: cmd_change_ok_def)
      with res Put show ?thesis by (simp add: s slots_change_ok_def list_all_iff)
    qed
  qed
qed

text \<open>
  Claim C4, as amended. Take any sequence of fewer than \<open>2^63\<close> steps on one direction,
  starting from the initialised state, in which the producer calls \<^verbatim>\<open>urpc_put_cmd\<close>
  with commands of a non-empty command code and the consumer calls \<^verbatim>\<open>urpc_get_cmd\<close>
  and releases, with \<^verbatim>\<open>urpc_slot_done\<close>, slots of requests that it has fetched and not
  yet released. After the sequence the counters satisfy
  \<open>last_get_req \<le> last_put_req \<le> last_get_req + N\<close>, every request that the consumer
  holds still has its non-empty command code in its slot, and in any further step no
  slot's command field goes from one non-empty value to another: it only changes from
  empty to non-empty or from non-empty to empty.
\<close>

theorem tq_put_get_invariant:
  assumes "0 < N" and "N < 2 ^ 63"
    and "length (mb (tq uc0)) = N" and "length (mlist uc0) = N"
    and "nonempty_puts steps" and "length steps < 2 ^ 63"
  shows "sint (last_get_req (tq (fst (tq_run N D uc0 steps))))
           \<le> sint (last_put_req (tq (fst (tq_run N D uc0 steps)))) \<and>
         sint (last_put_req (tq (fst (tq_run N D uc0 steps))))
           \<le> sint (last_get_req (tq (fst (tq_run N D uc0 steps)))) + int N \<and>
         list_all (\<lambda>r. c_cmd (mb (tq (fst (tq_run N D uc0 steps))) ! REQ2SLOT N r)
                         \<noteq> URPC_CMD_NONE)
           (snd (tq_run N D uc0 steps)) \<and>
         slots_change_ok N (fst (tq_run N D uc0 steps)) (fst (tq_run N D uc0 (steps @ [st])))"
proof -
  obtain uc held where s: "tq_run N D uc0 steps = (uc, held)"
    by (cases "tq_run N D uc0 steps")
  have inv: "tq_inv N (length steps) (uc, held)"
    using tq_inv_run [OF assms(1,2,3,4) assms(5,6), of D] unfolding s .
  have run: "tq_run N D uc0 (steps @ [st]) = tq_step N D (uc, held) st"
    by (simp add: tq_run_def s [symmetric])
  have "c_cmd (mb (tq uc) ! REQ2SLOT N r) \<noteq> URPC_CMD_NONE" if "r \<in> set held" for r
  proof -
    from inv that have "0 \<le> sint r" "sint r \<le> sint (last_get_req (tq uc))"
      "sint (last_put_req (tq uc)) - int N < sint r"
      "sint (last_get_req (tq uc)) \<le> sint (last_put_req (tq uc))"
      unfolding tq_inv_def by auto
    with inv that show ?thesis unfolding tq_inv_def by auto
  qed
  then have "list_all (\<lambda>r. c_cmd (mb (tq uc) ! REQ2SLOT N r) \<noteq> URPC_CMD_NONE) held"
    by (simp add: list_all_iff)
  with inv tq_step_change_ok [of N "(uc, held)" D st] run
  show ?thesis unfolding s by (simp add: tq_inv_def)
qed

theorem tq_put_get_invariant_witness:
  "sint (last_get_req (tq (fst (tq_run 2 1024 (blank_comm 2) reuse_run))))
     \<le> sint (last_put_req (tq (fst (tq_run 2 1024 (blank_comm 2) reuse_run)))) \<and>
   sint (last_put_req (tq (fst (tq_run 2 1024 (blank_comm 2) reuse_run))))
     \<le> sint (last_get_req (tq (fst (tq_run 2 1024 (blank_comm 2) reuse_run)))) + 2 \<and>
   list_all (\<lambda>r. c_cmd (mb (tq (fst (tq_run 2 1024 (blank_comm 2) reuse_run))) ! REQ2SLOT 2 r)
                   \<noteq> URPC_CMD_NONE)
     (snd (tq_run 2 1024 (blank_comm 2) reuse_run)) \<and>
   slots_change_ok 2 (fst (tq_run 2 1024 (blank_comm 2) reuse_run))
     (fst (tq_run 2 1024 (blank_comm 2) (reuse_run @ [Done 1 mb_zero]))) \<and>
   last_put_req (tq (fst (tq_run 2 1024 (blank_comm 2) reuse_run))) = 2 \<and>
   last_get_req (tq (fst (tq_run 2 1024 (blank_comm 2) reuse_run))) = 1 \<and>
   snd (tq_run 2 1024 (blank_comm 2) reuse_run) = [1] \<and>
   map c_cmd (mb (tq (fst (tq_run 2 1024 (blank_comm 2) reuse_run)))) = [3, 2] \<and>
   map c_cmd (mb (tq (fst (tq_run 2 1024 (blank_comm 2) (reuse_run @ [Done 1 mb_zero])))))
     = [3, 0]"
proof -
  have h: "(0::nat) < 2" "(2::nat) < 2 ^ 63" "length (mb (tq (blank_comm 2))) = 2"
    "length (mlist (blank_comm 2)) = 2" "nonempty_puts reuse_run" "length reuse_run < 2 ^ 63"
    by (simp_all add: blank_comm_def reuse_run_def URPC_CMD_NONE_def)
  have e: "last_put_req (tq (fst (tq_run 2 1024 (blank_comm 2) reuse_run))) = 2"
    "last_get_req (tq (fst (tq_run 2 1024 (blank_comm 2) reuse_run))) = 1"
    "snd (tq_run 2 1024 (blank_comm 2) reuse_run) = [1]"
    "map c_cmd (mb (tq (fst (tq_run 2 1024 (blank_comm 2) reuse_run)))) = [3, 2]"
    "map c_cmd (mb (tq (fst (tq_run 2 1024 (blank_comm 2) (reuse_run @ [Done 1 mb_zero])))))
       = [3, 0]"
    by code_simp+
  from tq_put_get_invariant [OF h, of 1024 "Done 1 mb_zero"]
  have t: "sint (last_get_req (tq (fst (tq_run 2 1024 (blank_comm 2) reuse_run))))
     \<le> sint (last_put_req (tq (fst (tq_run 2 1024 (blank_comm 2) reuse_run)))) \<and>
   sint (last_put_req (tq (fst (tq_run 2 1024 (blank_comm 2) reuse_run))))
     \<le> sint (last_get_req (tq (fst (tq_run 2 1024 (blank_comm 2) reuse_run)))) + 2 \<and>
   list_all (\<lambda>r. c_cmd (mb (tq (fst (tq_run 2 1024 (blank_comm 2) reuse_run))) ! REQ2SLOT 2 r)
                   \<noteq> URPC_CMD_NONE)
     (snd (tq_run 2 1024 (blank_comm 2) reuse_run)) \<and>
   slots_change_ok 2 (fst (tq_run 2 1024 (blank_comm 2) reuse_run))
     (fst (tq_run 2 1024 (blank_comm 2) (reuse_run @ [Done 1 mb_zero])))"
    by simp
  show ?thesis using t e by blast
qed

text \<open>
  Claim C4 as stated fails: \<^verbatim>\<open>urpc_put_cmd\<close> does not look at the command code it
  publishes. Five puts of a word with the empty command code on a queue of 4 slots all
  find their slot empty, and leave \<open>last_put_req = 4\<close>, \<open>last_get_req = -1\<close>.
\<close>

theorem tq_invariant_fails_for_empty_commands:
  "last_put_req (tq (fst (tq_run 4 1024 (blank_comm 4)
       [Put mb_zero, Put mb_zero, Put mb_zero, Put mb_zero, Put mb_zero]))) = 4 \<and>
   last_get_req (tq (fst (tq_run 4 1024 (blank_comm 4)
       [Put mb_zero, Put mb_zero, Put mb_zero, Put mb_zero, Put mb_zero]))) = - 1 \<and>
   \<not> sint (last_put_req (tq (fst (tq_run 4 1024 (blank_comm 4)
       [Put mb_zero, Put mb_zero, Put mb_zero, Put mb_zero, Put mb_zero]))))
      \<le> sint (last_get_req (tq (fst (tq_run 4 1024 (blank_comm 4)
       [Put mb_zero, Put mb_zero, Put mb_zero, Put mb_zero, Put mb_zero])))) + int 4"
  by code_simp

section \<open>Properties of the inbound progress loop\<close>

lemma recv_loop_stop:
  assumes "urpc_get_cmd N (recv_tq up) m = (req, m1, q1)" and "req <s 0"
  shows "recv_progress_loop N (Suc k) up m = ([], up\<lparr>recv_tq := q1\<rparr>)"
  using assms by simp

lemma recv_loop_step:
  assumes "urpc_get_cmd N (recv_tq up) m = (req, m1, q1)" and "\<not> req <s 0"
    and "call_handler up m1 req = (outcome, m2, u2)"
    and "urpc_slot_done q1 (REQ2SLOT N req) m2 = (m3, q3)"
  shows "recv_progress_loop N (Suc k) up m =
           (\<lparr>e_req = req, e_cmd = c_cmd m1, e_outcome = outcome\<rparr>
              # fst (recv_progress_loop N k (up\<lparr>recv_tq := q3, user := u2\<rparr>) m3),
            snd (recv_progress_loop N k (up\<lparr>recv_tq := q3, user := u2\<rparr>) m3))"
  using assms by (simp split: prod.splits)

lemma recv_loop_cases:
  obtains (stop) req m1 q1 where "urpc_get_cmd N (recv_tq up) m = (req, m1, q1)" "req <s 0"
  | (step) req m1 q1 outcome m2 u2 m3 q3 where
      "urpc_get_cmd N (recv_tq up) m = (req, m1, q1)" "\<not> req <s 0"
      "call_handler up m1 req = (outcome, m2, u2)"
      "urpc_slot_done q1 (REQ2SLOT N req) m2 = (m3, q3)"
proof -
  obtain req m1 q1 where g: "urpc_get_cmd N (recv_tq up) m = (req, m1, q1)"
    by (cases "urpc_get_cmd N (recv_tq up) m") auto
  obtain outcome m2 u2 where h: "call_handler up m1 req = (outcome, m2, u2)"
    by (cases "call_handler up m1 req") auto
  obtain m3 q3 where d: "urpc_slot_done q1 (REQ2SLOT N req) m2 = (m3, q3)"
    by (cases "urpc_slot_done q1 (REQ2SLOT N req) m2") auto
  show thesis using g h d stop step by (cases "req <s 0") blast+
qed

declare recv_progress_loop.simps(2) [simp del]

lemma recv_loop_length: "length (fst (recv_progress_loop N k up m)) \<le> k"
proof (induction k arbitrary: up m)
  case 0
  show ?case by simp
next
  case (Suc k)
  show ?case
  proof (cases rule: recv_loop_cases [of N up m])
    case (stop req m1 q1)
    then show ?thesis by (simp add: recv_loop_stop)
  next
    case (step req m1 q1 outcome m2 u2 m3 q3)
    from Suc [of "up\<lparr>recv_tq := q3, user := u2\<rparr>" m3] show ?thesis
      by (simp add: recv_loop_step [OF step])
  qed
qed

text \<open>Only empty command fields are written: an empty slot stays empty.\<close>

lemma recv_loop_keeps_empty:
  "c_cmd (mb (recv_tq up) ! i) = URPC_CMD_NONE \<Longrightarrow>
   c_cmd (mb (recv_tq (snd (recv_progress_loop N k up m))) ! i) = URPC_CMD_NONE"
proof (induction k arbitrary: up m)
  case 0
  then show ?case by simp
next
  case (Suc k)
  show ?case
  proof (cases rule: recv_loop_cases [of N up m])
    case (stop req m1 q1)
    with Suc.prems show ?thesis
      by (auto simp: recv_loop_stop urpc_get_cmd_def Let_def split: if_splits)
  next
    case (step req m1 q1 outcome m2 u2 m3 q3)
    have q1: "mb q1 = mb (recv_tq up)"
      using step(1) by (auto simp: urpc_get_cmd_def Let_def split: if_splits)
    have "c_cmd (mb q3 ! i) = URPC_CMD_NONE"
      using step(4) q1 Suc.prems
      by (cases "i = REQ2SLOT N req"; cases "i < length (mb q1)")
         (auto simp: urpc_slot_done_def Let_def list_update_beyond)
    from Suc.IH [of "up\<lparr>recv_tq := q3, user := u2\<rparr>" m3] this
    show ?thesis by (simp add: recv_loop_step [OF step])
  qed
qed

lemma recv_loop_length_mb:
  "length (mb (recv_tq (snd (recv_progress_loop N k up m)))) = length (mb (recv_tq up))"
proof (induction k arbitrary: up m)
  case 0
  then show ?case by simp
next
  case (Suc k)
  show ?case
  proof (cases rule: recv_loop_cases [of N up m])
    case (stop req m1 q1)
    then show ?thesis
      by (auto simp: recv_loop_stop urpc_get_cmd_def Let_def split: if_splits)
  next
    case (step req m1 q1 outcome m2 u2 m3 q3)
    have "length (mb q3) = length (mb (recv_tq up))"
      using step(1,4) by (auto simp: urpc_get_cmd_def urpc_slot_done_def Let_def split: if_splits)
    with Suc.IH [of "up\<lparr>recv_tq := q3, user := u2\<rparr>" m3]
    show ?thesis by (simp add: recv_loop_step [OF step])
  qed
qed

lemma recv_loop_slots_freed:
  assumes "0 < N" "length (mb (recv_tq up)) = N"
  shows "\<forall>e\<in>set (fst (recv_progress_loop N k up m)).
           c_cmd (mb (recv_tq (snd (recv_progress_loop N k up m))) ! REQ2SLOT N (e_req e))
             = URPC_CMD_NONE"
  using assms(2)
proof (induction k arbitrary: up m)
  case 0
  then show ?case by simp
next
  case (Suc k)
  show ?case
  proof (cases rule: recv_loop_cases [of N up m])
    case (stop req m1 q1)
    then show ?thesis by (simp add: recv_loop_stop)
  next
    case (step req m1 q1 outcome m2 u2 m3 q3)
    let ?up = "up\<lparr>recv_tq := q3, user := u2\<rparr>"
    have len: "length (mb q3) = N"
      using step(1,4) Suc.prems
      by (auto simp: urpc_get_cmd_def urpc_slot_done_def Let_def split: if_splits)
    have "REQ2SLOT N req < N" using assms(1) by (simp add: REQ2SLOT_def)
    then have "c_cmd (mb (recv_tq ?up) ! REQ2SLOT N req) = URPC_CMD_NONE"
      using step(1,4) Suc.prems
      by (auto simp: urpc_get_cmd_def urpc_slot_done_def Let_def split: if_splits)
    from recv_loop_keeps_empty [OF this, of N k m3] Suc.IH [of ?up m3] len
    show ?thesis by (simp add: recv_loop_step [OF step])
  qed
qed

lemma recv_loop_handler:
  "handler (snd (recv_progress_loop N k up m)) = handler up"
proof (induction k arbitrary: up m)
  case 0
  then show ?case by simp
next
  case (Suc k)
  show ?case
  proof (cases rule: recv_loop_cases [of N up m])
    case (stop req m1 q1)
    then show ?thesis by (simp add: recv_loop_stop)
  next
    case (step req m1 q1 outcome m2 u2 m3 q3)
    from Suc.IH [of "up\<lparr>recv_tq := q3, user := u2\<rparr>" m3]
    show ?thesis by (simp add: recv_loop_step [OF step])
  qed
qed

lemma recv_loop_outcome:
  "\<forall>e\<in>set (fst (recv_progress_loop N k up m)).
      (e_outcome e = No_handler) = (handler up (e_cmd e) = None)"
proof (induction k arbitrary: up m)
  case 0
  then show ?case by simp
next
  case (Suc k)
  show ?case
  proof (cases rule: recv_loop_cases [of N up m])
    case (stop req m1 q1)
    then show ?thesis by (simp add: recv_loop_stop)
  next
    case (step req m1 q1 outcome m2 u2 m3 q3)
    have "(outcome = No_handler) = (handler up (c_cmd m1) = None)"
      using step(3) by (auto simp: call_handler_def split: option.splits prod.splits if_splits)
    with Suc.IH [of "up\<lparr>recv_tq := q3, user := u2\<rparr>" m3]
    show ?thesis by (simp add: recv_loop_step [OF step])
  qed
qed

lemma recv_loop_count:
  assumes "- 1 \<le> sint (last_get_req (recv_tq up))"
    and "sint (last_get_req (recv_tq up)) \<le> sint (last_put_req (recv_tq up))"
  shows "int (length (fst (recv_progress_loop N k up m))) =
           min (int k) (sint (last_put_req (recv_tq up)) - sint (last_get_req (recv_tq up))) \<and>
         map e_req (fst (recv_progress_loop N k up m)) =
           map (\<lambda>j. last_get_req (recv_tq up) + 1 + of_nat j)
             [0..<length (fst (recv_progress_loop N k up m))] \<and>
         last_get_req (recv_tq (snd (recv_progress_loop N k up m))) =
           last_get_req (recv_tq up) + of_nat (length (fst (recv_progress_loop N k up m)))"
  using assms
proof (induction k arbitrary: up m)
  case 0
  then show ?case by simp
next
  case (Suc k)
  let ?lg = "last_get_req (recv_tq up)" and ?lp = "last_put_req (recv_tq up)"
  show ?case
  proof (cases "?lp = ?lg")
    case True
    then have g: "urpc_get_cmd N (recv_tq up) m = (- 1, m, recv_tq up)"
      by (simp add: urpc_get_cmd_def)
    have "(- 1 :: 64 word) <s 0" by (simp add: word_sless_alt)
    from recv_loop_stop [OF g this] True show ?thesis by simp
  next
    case False
    then have "sint ?lp \<noteq> sint ?lg" using signed_word_eqI by blast
    with Suc.prems have lt: "sint ?lg < sint ?lp" by simp
    have "sint ?lp < 2 ^ 63" using sint_lt [of ?lp] by simp
    with lt have s1: "sint (?lg + 1) = sint ?lg + 1" by (intro sint64_succ) simp
    obtain m1 q1 where g: "urpc_get_cmd N (recv_tq up) m = (?lg + 1, m1, q1)"
      and q1: "q1 = (recv_tq up)\<lparr>last_get_req := ?lg + 1\<rparr>"
      using False by (simp add: urpc_get_cmd_def Let_def)
    have nn: "\<not> ?lg + 1 <s 0" using s1 Suc.prems by (simp add: word_sless_alt)
    obtain outcome m2 u2 where h: "call_handler up m1 (?lg + 1) = (outcome, m2, u2)"
      by (cases "call_handler up m1 (?lg + 1)") auto
    obtain m3 q3 where d: "urpc_slot_done q1 (REQ2SLOT N (?lg + 1)) m2 = (m3, q3)"
      by (cases "urpc_slot_done q1 (REQ2SLOT N (?lg + 1)) m2") auto
    let ?up = "up\<lparr>recv_tq := q3, user := u2\<rparr>"
    have c: "last_get_req (recv_tq ?up) = ?lg + 1" "last_put_req (recv_tq ?up) = ?lp"
      using d q1 by (auto simp: urpc_slot_done_def Let_def)
    have pre: "- 1 \<le> sint (last_get_req (recv_tq ?up))"
      "sint (last_get_req (recv_tq ?up)) \<le> sint (last_put_req (recv_tq ?up))"
      using c s1 lt Suc.prems by simp_all
    note ih = Suc.IH [OF pre, of m3, unfolded c]
    let ?es = "fst (recv_progress_loop N k ?up m3)"
    let ?r = "recv_progress_loop N (Suc k) up m"
    have r: "?r = (\<lparr>e_req = ?lg + 1, e_cmd = c_cmd m1, e_outcome = outcome\<rparr> # ?es,
                   snd (recv_progress_loop N k ?up m3))"
      by (rule recv_loop_step [OF g nn h d])
    have upt: "[0..<Suc (length ?es)] = 0 # map Suc [0..<length ?es]"
      by (simp add: upt_conv_Cons map_Suc_upt del: upt_Suc)
    have shift: "map (\<lambda>j. ?lg + 1 + of_nat j) [0..<Suc (length ?es)] =
           (?lg + 1) # map (\<lambda>j. ?lg + 1 + 1 + of_nat j) [0..<length ?es]"
      unfolding upt by (simp add: o_def add.assoc)
    have p1: "int (length (fst ?r)) = min (int (Suc k)) (sint ?lp - sint ?lg)"
    proof -
      from ih have "int (length ?es) = min (int k) (sint ?lp - sint (?lg + 1))" by blast
      with lt show ?thesis unfolding r s1 by (simp add: min_def)
    qed
    have p2: "map e_req (fst ?r) = map (\<lambda>j. ?lg + 1 + of_nat j) [0..<length (fst ?r)]"
    proof -
      from ih have "map e_req ?es = map (\<lambda>j. ?lg + 1 + 1 + of_nat j) [0..<length ?es]"
        by blast
      then have "map e_req (fst ?r) = (?lg + 1) # map (\<lambda>j. ?lg + 1 + 1 + of_nat j) [0..<length ?es]"
        unfolding r by simp
      also have "\<dots> = map (\<lambda>j. ?lg + 1 + of_nat j) [0..<Suc (length ?es)]"
        by (rule shift [symmetric])
      also have "Suc (length ?es) = length (fst ?r)" unfolding r by simp
      finally show ?thesis .
    qed
    have p3: "last_get_req (recv_tq (snd ?r)) = ?lg + of_nat (length (fst ?r))"
    proof -
      from ih have "last_get_req (recv_tq (snd (recv_progress_loop N k ?up m3))) =
                      ?lg + 1 + of_nat (length ?es)" by blast
      then show ?thesis unfolding r by (simp add: add.assoc)
    qed
    from p1 p2 p3 show ?thesis by blast
  qed
qed

text \<open>
  Claim C7. \<^verbatim>\<open>urpc_recv_progress\<close> returns the number of entries it processed, at
  most \<^verbatim>\<open>ncmds\<close>. On a queue with \<open>-1 \<le> last_get_req \<le> last_put_req\<close> that number is
  the smaller of \<^verbatim>\<open>ncmds\<close> and the number of waiting requests whatever the handlers
  return: the entries processed are the next requests in order, so a handler's error
  (which is only logged) or a missing handler (the entry is skipped) does not end the
  loop. In every case \<^verbatim>\<open>urpc_slot_done\<close> has been called on the entry's slot: after
  the call the command field of the slot of every processed request is empty.
\<close>

theorem urpc_recv_progress_frees_every_slot:
  assumes "0 < N" and "length (mb (recv_tq up)) = N"
    and "- 1 \<le> sint (last_get_req (recv_tq up))"
    and "sint (last_get_req (recv_tq up)) \<le> sint (last_put_req (recv_tq up))"
    and "urpc_recv_progress N up ncmds = (done, es, up')"
  shows "done = int (length es) \<and>
         done \<le> max 0 ncmds \<and>
         done = min (max 0 ncmds)
                  (sint (last_put_req (recv_tq up)) - sint (last_get_req (recv_tq up))) \<and>
         map e_req es = map (\<lambda>j. last_get_req (recv_tq up) + 1 + of_nat j) [0..<length es] \<and>
         (\<forall>e\<in>set es. c_cmd (mb (recv_tq up') ! REQ2SLOT N (e_req e)) = URPC_CMD_NONE) \<and>
         (\<forall>e\<in>set es. (e_outcome e = No_handler) = (handler up (e_cmd e) = None)) \<and>
         last_get_req (recv_tq up') = last_get_req (recv_tq up) + of_nat (length es)"
proof -
  let ?r = "recv_progress_loop N (nat ncmds) up mb_zero"
  from assms(5) have r: "es = fst ?r" "up' = snd ?r" "done = int (length es)"
    by (auto simp: urpc_recv_progress_def split: prod.splits)
  note cnt = recv_loop_count [OF assms(3,4), of N "nat ncmds" mb_zero, folded r(1,2)]
  have n: "int (nat ncmds) = max 0 ncmds" by simp
  have c1: "done = min (max 0 ncmds)
                  (sint (last_put_req (recv_tq up)) - sint (last_get_req (recv_tq up)))"
    using cnt r(3) n by simp
  have c2: "done \<le> max 0 ncmds" unfolding c1 by simp
  have fr: "\<forall>e\<in>set es. c_cmd (mb (recv_tq up') ! REQ2SLOT N (e_req e)) = URPC_CMD_NONE"
    using recv_loop_slots_freed [OF assms(1,2), of "nat ncmds" mb_zero] r by simp
  have oc: "\<forall>e\<in>set es. (e_outcome e = No_handler) = (handler up (e_cmd e) = None)"
    using recv_loop_outcome [of N "nat ncmds" up mb_zero] r by simp
  from r(3) c1 c2 cnt fr oc show ?thesis by blast
qed

theorem urpc_recv_progress_frees_every_slot_witness:
  "fst (urpc_recv_progress 4 demo_peer 5) = 3 \<and>
   map e_outcome (fst (snd (urpc_recv_progress 4 demo_peer 5)))
     = [Handler_warning 5, No_handler, Handler_warning 5] \<and>
   map c_cmd (mb (recv_tq (snd (snd (urpc_recv_progress 4 demo_peer 5))))) = [0, 0, 0, 0] \<and>
   last_get_req (recv_tq (snd (snd (urpc_recv_progress 4 demo_peer 5)))) = 2"
proof -
  have h: "(0::nat) < 4" "length (mb (recv_tq demo_peer)) = 4"
    "- 1 \<le> sint (last_get_req (recv_tq demo_peer))"
    "sint (last_get_req (recv_tq demo_peer)) \<le> sint (last_put_req (recv_tq demo_peer))"
    by (simp_all add: demo_peer_def)
  have e: "urpc_recv_progress 4 demo_peer 5 =
      (fst (urpc_recv_progress 4 demo_peer 5), fst (snd (urpc_recv_progress 4 demo_peer 5)),
       snd (snd (urpc_recv_progress 4 demo_peer 5)))" by simp
  have v: "map e_outcome (fst (snd (urpc_recv_progress 4 demo_peer 5)))
     = [Handler_warning 5, No_handler, Handler_warning 5]"
    "map c_cmd (mb (recv_tq (snd (snd (urpc_recv_progress 4 demo_peer 5))))) = [0, 0, 0, 0]"
    by code_simp+
  have s: "sint (last_put_req (recv_tq demo_peer)) - sint (last_get_req (recv_tq demo_peer)) = 3"
    "last_get_req (recv_tq demo_peer) = - 1"
    by (simp_all add: demo_peer_def)
  note t = urpc_recv_progress_frees_every_slot [OF h e]
  from t s have d: "fst (urpc_recv_progress 4 demo_peer 5) = 3" by simp
  with t have "int (length (fst (snd (urpc_recv_progress 4 demo_peer 5)))) = 3" by simp
  then have l: "length (fst (snd (urpc_recv_progress 4 demo_peer 5))) = 3" by simp
  from t have "last_get_req (recv_tq (snd (snd (urpc_recv_progress 4 demo_peer 5)))) =
      last_get_req (recv_tq demo_peer)
        + of_nat (length (fst (snd (urpc_recv_progress 4 demo_peer 5))))" by blast
  then have g: "last_get_req (recv_tq (snd (snd (urpc_recv_progress 4 demo_peer 5)))) = 2"
    unfolding l s by simp
  from d v g show ?thesis by simp
qed

text \<open>
  Claim C8 does not hold of the code. With a budget of 1 per pass and three requests
  waiting, \<^verbatim>\<open>urpc_recv_progress_timeout\<close> processes three requests and then runs
  idle until the timeout of 100 has passed; it returns no value, not the number 3.
\<close>

theorem urpc_recv_progress_timeout_returns_no_value:
  "map_option fst
     (urpc_recv_progress_timeout 4 demo_peer 1 100 [(5, 0), (6, 0), (7, 0), (8, 0), (9, 200)])
     = Some None \<and>
   map_option (\<lambda>r. length (fst (snd r)))
     (urpc_recv_progress_timeout 4 demo_peer 1 100 [(5, 0), (6, 0), (7, 0), (8, 0), (9, 200)])
     = Some 3"
  by code_simp

lemma urpc_recv_progress_timeout_no_value:
  "urpc_recv_progress_timeout N up ncmds timeout_us clock = Some (r, es, up') \<Longrightarrow> r = None"
  by (auto simp: urpc_recv_progress_timeout_def)

section \<open>Properties of the codec\<close>

lemma le_val_le_bytes: "le_val (le_bytes n v) = v mod 256 ^ n"
proof (induction n arbitrary: v)
  case 0
  show ?case by simp
next
  case (Suc n)
  have "unat (of_nat (v mod 256) :: 8 word) = v mod 256"
    by (simp add: unat_of_nat)
  then have "le_val (le_bytes (Suc n) v) = v mod 256 + 256 * (v div 256 mod 256 ^ n)"
    using Suc by simp
  also have "\<dots> = v mod (256 * 256 ^ n)"
    by (simp add: mod_mult2_eq)
  finally show ?case by simp
qed

lemma length_le_bytes [simp]: "length (le_bytes n v) = n"
  by (induction n arbitrary: v) simp_all

lemma write_bytes_apply:
  "write_bytes a bs mem x = (if a \<le> x \<and> x < a + length bs then bs ! (x - a) else mem x)"
proof (induction bs arbitrary: a mem)
  case Nil
  show ?case by auto
next
  case (Cons b bs)
  have ih: "write_bytes (Suc a) bs (mem(a := b)) x =
      (if Suc a \<le> x \<and> x < Suc a + length bs then bs ! (x - Suc a) else (mem(a := b)) x)"
    by (rule Cons.IH)
  show ?case
  proof (cases "x = a")
    case True
    then show ?thesis using ih by simp
  next
    case False
    show ?thesis
    proof (cases "a \<le> x \<and> x < a + length (b # bs)")
      case True
      with False have "x - a = Suc (x - Suc a)" by arith
      with True False ih show ?thesis by simp
    next
      case out: False
      with False ih show ?thesis by auto
    qed
  qed
qed

lemma read_write_bytes: "read_bytes a (length bs) (write_bytes a bs mem) = bs"
  by (rule nth_equalityI) (simp_all add: read_bytes_def write_bytes_apply)

lemma read_bytes_cong:
  "(\<And>x. a \<le> x \<Longrightarrow> x < a + n \<Longrightarrow> mem1 x = mem2 x) \<Longrightarrow> read_bytes a n mem1 = read_bytes a n mem2"
  by (simp add: read_bytes_def)

lemma load32_store32: "load32 a (store32 a v mem) = v"
proof -
  have "read_bytes a 4 (write_bytes a (le_bytes 4 (unat v)) mem) = le_bytes 4 (unat v)"
    using read_write_bytes [of a "le_bytes 4 (unat v)" mem] by simp
  then have "load32 a (store32 a v mem) = of_nat (unat v mod 256 ^ 4)"
    by (simp add: load32_def store32_def le_val_le_bytes)
  also have "unat v mod 256 ^ 4 = unat v"
    using unsigned_less [of v, where 'a = nat] by simp
  finally show ?thesis by simp
qed

lemma load64_store64: "load64 a (store64 a v mem) = v"
proof -
  have "read_bytes a 8 (write_bytes a (le_bytes 8 (unat v)) mem) = le_bytes 8 (unat v)"
    using read_write_bytes [of a "le_bytes 8 (unat v)" mem] by simp
  then have "load64 a (store64 a v mem) = of_nat (unat v mod 256 ^ 8)"
    by (simp add: load64_def store64_def le_val_le_bytes)
  also have "unat v mod 256 ^ 8 = unat v"
    using unsigned_less [of v, where 'a = nat] by simp
  finally show ?thesis by simp
qed

lemma store32_below: "x < a \<Longrightarrow> store32 a v mem x = mem x"
  by (simp add: store32_def write_bytes_apply)

lemma store64_below: "x < a \<Longrightarrow> store64 a v mem x = mem x"
  by (simp add: store64_def write_bytes_apply)

lemma pack_fill_frame:
  "pack_fill fmt args pp mem = Some mem' \<Longrightarrow> x < pp \<Longrightarrow> mem' x = mem x"
proof (induction fmt arbitrary: args pp mem)
  case Nil
  then show ?case by simp
next
  case (Cons c fmt)
  show ?case
  proof (cases "c = CHR ''I''")
    case True
    with Cons.prems obtain v rest where a: "args = Arg_I v # rest"
      and f: "pack_fill fmt rest (pp + 4) (store32 pp v mem) = Some mem'"
      by (auto split: list.splits send_arg.splits)
    from Cons.IH [OF f] Cons.prems(2) show ?thesis by (simp add: store32_below)
  next
    case nI: False
    show ?thesis
    proof (cases "c = CHR ''L''")
      case True
      with Cons.prems nI obtain v rest where a: "args = Arg_L v # rest"
        and f: "pack_fill fmt rest (pp + 8) (store64 pp v mem) = Some mem'"
        by (auto split: list.splits send_arg.splits)
      from Cons.IH [OF f] Cons.prems(2) show ?thesis by (simp add: store64_below)
    next
      case nL: False
      show ?thesis
      proof (cases "c = CHR ''P''")
        case True
        with Cons.prems nI nL obtain bs rest where a: "args = Arg_P bs # rest"
          and f: "pack_fill fmt rest (pp + 8 + length bs)
                    (write_bytes (pp + 8) bs (store64 pp (of_nat (length bs)) mem)) = Some mem'"
          by (auto split: list.splits send_arg.splits)
        from Cons.IH [OF f] Cons.prems(2) show ?thesis
          by (simp add: store64_below write_bytes_apply)
      next
        case nP: False
        show ?thesis
        proof (cases "c = CHR ''x''")
          case True
          with Cons.prems nI nL nP have f: "pack_fill fmt args (pp + 4) mem = Some mem'" by simp
          from Cons.IH [OF f] Cons.prems(2) show ?thesis by simp
        next
          case False
          with Cons.prems nI nL nP have f: "pack_fill fmt args pp mem = Some mem'" by simp
          from Cons.IH [OF f] Cons.prems(2) show ?thesis by simp
        qed
      qed
    qed
  qed
qed

lemma pack_size_total:
  "args_match fmt args \<Longrightarrow> pack_size fmt args acc = Some (acc + of_nat (pack_total fmt args))"
proof (induction fmt arbitrary: args acc)
  case Nil
  then show ?case by simp
next
  case (Cons c fmt)
  then show ?case
    by (auto split: list.splits send_arg.splits simp: add.assoc)
qed

lemma pack_fill_total:
  "args_match fmt args \<Longrightarrow> pack_fill fmt args pp mem \<noteq> None"
proof (induction fmt arbitrary: args pp mem)
  case Nil
  then show ?case by simp
next
  case (Cons c fmt)
  then show ?case
    by (auto split: list.splits send_arg.splits)
qed

lemma sint64_of_nat:
  assumes "int k < 2 ^ 63"
  shows "sint (of_nat k :: 64 word) = int k"
proof -
  have "k < 2 ^ 64" using assms by simp
  then have "unat (of_nat k :: 64 word) = k" by (simp add: unat_of_nat)
  then have u: "uint (of_nat k :: 64 word) = int k" by (simp add: uint_nat)
  have "sint (of_nat k :: 64 word) = signed_take_bit 63 (uint (of_nat k :: 64 word))"
    using sint_uint [of "of_nat k :: 64 word"] by simp
  also have "\<dots> = signed_take_bit 63 (int k)" unfolding u ..
  also have "\<dots> = int k"
  proof (rule signed_take_bit_int_eq_self)
    have "- (2 ^ 63) \<le> (0::int)" by simp
    also have "0 \<le> int k" by simp
    finally show "- (2 ^ 63) \<le> int k" .
    show "int k < 2 ^ 63" by (rule assms)
  qed
  finally show ?thesis .
qed

lemma sint64_sub_nat:
  fixes w :: "64 word"
  assumes "int k \<le> sint w"
  shows "sint (w - of_nat k) = sint w - int k"
proof -
  have hi: "sint w < 2 ^ 63" using sint_lt [of w] by simp
  have k: "int k < 2 ^ 63" using assms hi by linarith
  have "sint (w - of_nat k) = signed_take_bit 63 (sint w - sint (of_nat k :: 64 word))"
    using sint_word_diff [of w "of_nat k"] by simp
  also have "\<dots> = signed_take_bit 63 (sint w - int k)"
    unfolding sint64_of_nat [OF k] ..
  also have "\<dots> = sint w - int k"
  proof (rule signed_take_bit_int_eq_self)
    have "- (2 ^ 63) \<le> (0::int)" by simp
    also have "0 \<le> sint w - int k" using assms by simp
    finally show "- (2 ^ 63) \<le> sint w - int k" .
    have "sint w - int k \<le> sint w" by simp
    with hi show "sint w - int k < 2 ^ 63" by linarith
  qed
  finally show ?thesis .
qed

lemma load32_cong:
  "(\<And>x. a \<le> x \<Longrightarrow> x < a + 4 \<Longrightarrow> mem1 x = mem2 x) \<Longrightarrow> load32 a mem1 = load32 a mem2"
  using read_bytes_cong [of a 4 mem1 mem2] by (simp add: load32_def)

lemma load64_cong:
  "(\<And>x. a \<le> x \<Longrightarrow> x < a + 8 \<Longrightarrow> mem1 x = mem2 x) \<Longrightarrow> load64 a mem1 = load64 a mem2"
  using read_bytes_cong [of a 8 mem1 mem2] by (simp add: load64_def)

lemma not_sless_0:
  fixes w :: "64 word"
  shows "0 \<le> sint w \<Longrightarrow> \<not> w <s 0"
  by (simp add: word_sless_alt)

lemma roundtrip_core:
  assumes "args_match fmt args" and "pack_fill fmt args pp mem = Some mem'"
    and "int (pack_total fmt args) \<le> sint lsz" and "lo \<le> pp"
    and "pp + pack_total fmt args \<le> hi"
  shows "fst (unpack_loop mem' fmt pp lsz) = lsz - of_nat (pack_total fmt args) \<and>
         list_all2 (out_matches mem' lo hi) args (snd (unpack_loop mem' fmt pp lsz))"
  using assms
proof (induction fmt arbitrary: args pp mem lsz)
  case Nil
  then show ?case by simp
next
  case (Cons c fmt)
  have nn: "\<not> lsz <s 0" using Cons.prems(3) by (intro not_sless_0) linarith
  show ?case
  proof (cases "c = CHR ''I''")
    case True
    with Cons.prems obtain v rest where a: "args = Arg_I v # rest"
      and am: "args_match fmt rest"
      and f: "pack_fill fmt rest (pp + 4) (store32 pp v mem) = Some mem'"
      by (auto split: list.splits send_arg.splits)
    have tot: "pack_total (c # fmt) args = 4 + pack_total fmt rest" using True a by simp
    have s4: "sint (lsz - 4) = sint lsz - 4"
      using sint64_sub_nat [of 4 lsz] Cons.prems(3) tot by simp
    have ld: "load32 pp mem' = v"
    proof -
      have "load32 pp mem' = load32 pp (store32 pp v mem)"
        by (rule load32_cong) (simp add: pack_fill_frame [OF f])
      then show ?thesis by (simp add: load32_store32)
    qed
    have ih: "fst (unpack_loop mem' fmt (pp + 4) (lsz - 4)) = lsz - 4 - of_nat (pack_total fmt rest) \<and>
         list_all2 (out_matches mem' lo hi) rest (snd (unpack_loop mem' fmt (pp + 4) (lsz - 4)))"
      using Cons.prems(3,4,5) tot s4 by (intro Cons.IH [OF am f]) simp_all
    show ?thesis using True nn a ih ld tot
      by (simp add: case_prod_unfold)
  next
    case nI: False
    show ?thesis
    proof (cases "c = CHR ''L''")
      case True
      with Cons.prems nI obtain v rest where a: "args = Arg_L v # rest"
        and am: "args_match fmt rest"
        and f: "pack_fill fmt rest (pp + 8) (store64 pp v mem) = Some mem'"
        by (auto split: list.splits send_arg.splits)
      have tot: "pack_total (c # fmt) args = 8 + pack_total fmt rest" using True nI a by simp
      have s8: "sint (lsz - 8) = sint lsz - 8"
        using sint64_sub_nat [of 8 lsz] Cons.prems(3) tot by simp
      have ld: "load64 pp mem' = v"
      proof -
        have "load64 pp mem' = load64 pp (store64 pp v mem)"
          by (rule load64_cong) (simp add: pack_fill_frame [OF f])
        then show ?thesis by (simp add: load64_store64)
      qed
      have ih: "fst (unpack_loop mem' fmt (pp + 8) (lsz - 8)) = lsz - 8 - of_nat (pack_total fmt rest) \<and>
         list_all2 (out_matches mem' lo hi) rest (snd (unpack_loop mem' fmt (pp + 8) (lsz - 8)))"
        using Cons.prems(3,4,5) tot s8 by (intro Cons.IH [OF am f]) simp_all
      show ?thesis using True nI nn a ih ld tot
        by (simp add: case_prod_unfold)
    next
      case nL: False
      show ?thesis
      proof (cases "c = CHR ''P''")
        case True
        with Cons.prems nI nL obtain bs rest where a: "args = Arg_P bs # rest"
          and am: "args_match fmt rest"
          and f: "pack_fill fmt rest (pp + 8 + length bs)
                    (write_bytes (pp + 8) bs (store64 pp (of_nat (length bs)) mem)) = Some mem'"
          by (auto split: list.splits send_arg.splits)
        let ?n = "length bs"
        have tot: "pack_total (c # fmt) args = 8 + ?n + pack_total fmt rest"
          using True nI nL a by simp
        have hi63: "sint lsz < 2 ^ 63" using sint_lt [of lsz] by simp
        have n64: "?n < 2 ^ 64" using Cons.prems(3) tot hi63 by simp
        have sub: "sint (lsz - of_nat (8 + ?n)) = sint lsz - int (8 + ?n)"
          using Cons.prems(3) tot by (intro sint64_sub_nat) simp
        have ld: "load64 pp mem' = of_nat ?n"
        proof -
          have "load64 pp mem' = load64 pp (store64 pp (of_nat ?n) mem)"
            by (rule load64_cong) (simp add: pack_fill_frame [OF f] write_bytes_apply)
          then show ?thesis by (simp add: load64_store64)
        qed
        have un: "unat (of_nat ?n :: 64 word) = ?n" using n64 by (simp add: unat_of_nat)
        have rd: "read_bytes (pp + 8) ?n mem' = bs"
        proof -
          have "read_bytes (pp + 8) ?n mem' =
                read_bytes (pp + 8) ?n (write_bytes (pp + 8) bs (store64 pp (of_nat ?n) mem))"
            by (rule read_bytes_cong) (simp add: pack_fill_frame [OF f])
          then show ?thesis by (simp add: read_write_bytes)
        qed
        have ih: "fst (unpack_loop mem' fmt (pp + 8 + ?n) (lsz - of_nat (8 + ?n)))
                    = lsz - of_nat (8 + ?n) - of_nat (pack_total fmt rest) \<and>
           list_all2 (out_matches mem' lo hi) rest
             (snd (unpack_loop mem' fmt (pp + 8 + ?n) (lsz - of_nat (8 + ?n))))"
          using Cons.prems(3,4,5) tot sub by (intro Cons.IH [OF am f]) simp_all
        have bounds: "lo \<le> pp + 8" "pp + 8 + ?n \<le> hi" using Cons.prems(4,5) tot by simp_all
        have step: "unpack_loop mem' (c # fmt) pp lsz =
            (fst (unpack_loop mem' fmt (pp + 8 + ?n) (lsz - of_nat (8 + ?n))),
             Out_P (pp + 8) (of_nat ?n) # snd (unpack_loop mem' fmt (pp + 8 + ?n) (lsz - of_nat (8 + ?n))))"
          using True nI nL nn ld un by (simp add: case_prod_unfold Let_def diff_diff_eq)
        show ?thesis unfolding step using a ih rd bounds tot by simp
      next
        case nP: False
        show ?thesis
        proof (cases "c = CHR ''x''")
          case True
          with Cons.prems nI nL nP have am: "args_match fmt args"
            and f: "pack_fill fmt args (pp + 4) mem = Some mem'" by simp_all
          have tot: "pack_total (c # fmt) args = 4 + pack_total fmt args"
            using True nI nL nP by simp
          have s4: "sint (lsz - 4) = sint lsz - 4"
            using sint64_sub_nat [of 4 lsz] Cons.prems(3) tot by simp
          have ih: "fst (unpack_loop mem' fmt (pp + 4) (lsz - 4)) = lsz - 4 - of_nat (pack_total fmt args) \<and>
             list_all2 (out_matches mem' lo hi) args (snd (unpack_loop mem' fmt (pp + 4) (lsz - 4)))"
            using Cons.prems(3,4,5) tot s4 by (intro Cons.IH [OF am f]) simp_all
          show ?thesis using True nI nL nP nn ih tot by simp
        next
          case False
          with Cons.prems nI nL nP have am: "args_match fmt args"
            and f: "pack_fill fmt args pp mem = Some mem'" by simp_all
          have tot: "pack_total (c # fmt) args = pack_total fmt args"
            using False nI nL nP by simp
          have ih: "fst (unpack_loop mem' fmt pp lsz) = lsz - of_nat (pack_total fmt args) \<and>
             list_all2 (out_matches mem' lo hi) args (snd (unpack_loop mem' fmt pp lsz))"
            using Cons.prems(3,4,5) tot by (intro Cons.IH [OF am f]) simp_all
          show ?thesis using False nI nL nP nn ih tot by simp
        qed
      qed
    qed
  qed
qed

lemma and_not_7: "(y::'a::len word) AND NOT 7 = push_bit 3 (drop_bit 3 y)"
proof -
  have m: "(7::'a word) = mask 3" by (simp add: mask_eq_exp_minus_1)
  show ?thesis unfolding m
    by (rule bit_eqI) (auto simp: bit_and_iff bit_not_iff bit_mask_iff bit_push_bit_iff bit_drop_bit_eq)
qed

lemma unat_and_not_7: "unat ((y::'a::len word) AND NOT 7) = unat y div 8 * 8"
proof -
  have "unat (push_bit 3 (drop_bit 3 y)) = take_bit LENGTH('a) (push_bit 3 (drop_bit 3 (unat y)))"
    by (simp add: unsigned_push_bit_eq unat_drop_bit_eq)
  also have "push_bit 3 (drop_bit 3 (unat y)) = unat y div 8 * 8"
    by (simp add: push_bit_eq_mult drop_bit_eq_div)
  also have "take_bit LENGTH('a) (unat y div 8 * 8) = unat y div 8 * 8"
  proof (rule take_bit_nat_eq_self)
    have "unat y div 8 * 8 \<le> unat y" by simp
    also have "unat y < 2 ^ LENGTH('a)" by (rule unsigned_less)
    finally show "unat y div 8 * 8 < 2 ^ LENGTH('a)" .
  qed
  finally show ?thesis unfolding and_not_7 .
qed

lemma unat_ALIGN8B_64:
  assumes "t + 7 < 2 ^ 64"
  shows "unat (ALIGN8B (of_nat t :: 64 word)) = (t + 7) div 8 * 8"
proof -
  have "(of_nat t :: 64 word) + 7 = of_nat (t + 7)" by simp
  then have u: "unat ((of_nat t :: 64 word) + 7) = t + 7"
    using assms by (simp only: unat_of_nat) simp
  show ?thesis unfolding ALIGN8B_def unat_and_not_7 u ..
qed

lemma gc_loop_lengths:
  "length (mb (tq (gc_loop N D L i uc))) = length (mb (tq uc)) \<and>
   length (mlist (gc_loop N D L i uc)) = length (mlist uc)"
proof (induction N D L i uc rule: gc_loop.induct)
  case (1 N D L i uc)
  show ?case
  proof (cases "i \<le> N")
    case True
    have s: "gc_loop N D L i uc = gc_loop N D L (Suc i) (gc_slot D ((L + i) mod N) uc)"
      using True by (subst gc_loop.simps) simp
    show ?thesis unfolding s using "1.IH" [OF True]
      by (simp add: gc_slot_def Let_def)
  next
    case False
    then show ?thesis by (subst (1 2) gc_loop.simps) simp
  qed
qed

lemma gc_buffer_lengths:
  "length (mb (tq (gc_buffer N D uc))) = length (mb (tq uc)) \<and>
   length (mlist (gc_buffer N D uc)) = length (mlist uc)"
  by (simp add: gc_buffer_def Let_def gc_loop_lengths gc_wrap_def)

lemma receiver_done_lengths:
  "length (mb (tq (receiver_done slots uc))) = length (mb (tq uc)) \<and>
   length (mlist (receiver_done slots uc)) = length (mlist uc)"
  by (induction slots arbitrary: uc) (simp_all add: urpc_slot_done_def Let_def)

lemma alloc_wait_lengths:
  "alloc_wait N D T sz asize obs uc = Some (t, uc1) \<Longrightarrow>
   length (mb (tq uc1)) = length (mb (tq uc)) \<and> length (mlist uc1) = length (mlist uc)"
proof (induction obs arbitrary: uc)
  case Nil
  then show ?case by (simp split: if_splits)
next
  case (Cons ob obs)
  let ?u = "gc_buffer N D (receiver_done (fst ob) uc)"
  have l: "length (mb (tq ?u)) = length (mb (tq uc)) \<and> length (mlist ?u) = length (mlist uc)"
    by (simp add: gc_buffer_lengths receiver_done_lengths)
  from Cons.prems show ?case
  proof (cases "free_end uc - free_begin uc < asize")
    case False
    with Cons.prems show ?thesis by simp
  next
    case True
    show ?thesis
    proof (cases "gc_free ?u < sz \<and> \<not> snd ob > T")
      case True
      with Cons.prems \<open>free_end uc - free_begin uc < asize\<close>
      have "alloc_wait N D T sz asize obs ?u = Some (t, uc1)" by (simp add: Let_def)
      from Cons.IH [OF this] l show ?thesis by simp
    next
      case False
      with Cons.prems \<open>free_end uc - free_begin uc < asize\<close> have "uc1 = ?u"
        by (auto simp: Let_def split: if_splits)
      with l show ?thesis by simp
    qed
  qed
qed

lemma alloc_payload_ok:
  assumes "alloc_payload N D T uc sz obs = Some (Alloc_ok m, uc1)"
  shows "c_len m = sz \<and> c_cmd m = 0 \<and> length (mb (tq uc1)) = length (mb (tq uc))"
proof -
  from assms obtain t u where w: "alloc_wait N D T sz (ALIGN8B sz) obs uc = Some (t, u)"
    by (auto simp: alloc_payload_def Let_def split: option.splits)
  from assms w have "c_len m = sz \<and> c_cmd m = 0 \<and> length (mb (tq uc1)) = length (mb (tq u))"
    by (cases t) (auto simp: alloc_payload_def Let_def split: if_splits)
  with alloc_wait_lengths [OF w] show ?thesis by simp
qed

lemma put_published:
  assumes "urpc_put_cmd N D uc m = Some (req, uc')" and "0 < N" and "length (mb (tq uc)) = N"
  shows "mb (tq uc') ! REQ2SLOT N req = m"
proof -
  have "REQ2SLOT N req < N" using assms(2) by (simp add: REQ2SLOT_def)
  with assms show ?thesis
    by (auto simp: urpc_put_cmd_def Let_def split: if_splits)
qed

lemma pack_fill_nothing:
  "args_match fmt args \<Longrightarrow> pack_total fmt args = 0 \<Longrightarrow>
   pack_fill fmt args pp mem = Some mem \<and> \<not> reads_payload fmt psz"
proof (induction fmt arbitrary: args)
  case Nil
  then show ?case by (simp add: reads_payload_def)
next
  case (Cons c fmt)
  then show ?case
    by (auto simp: reads_payload_def split: list.splits send_arg.splits if_splits)
qed

lemma unat_ucast_32_64: "unat (ucast (x :: 32 word) :: 64 word) = unat x"
proof -
  have "unat x < 2 ^ 32" using unsigned_less [of x, where 'a = nat] by simp
  then have "unat x < 2 ^ 64" by simp
  then have "take_bit 64 (unat x) = unat x" by (rule take_bit_nat_eq_self)
  then show ?thesis using unsigned_ucast_eq [of x, where 'c = 64 and 'a = nat] by simp
qed

lemma sint_ucast_32_64: "sint (ucast (x :: 32 word) :: 64 word) = int (unat x)"
proof -
  let ?w = "ucast x :: 64 word"
  have "unat x < 2 ^ 32" using unsigned_less [of x, where 'a = nat] by simp
  then have "int (unat x) < int (2 ^ 32)" by (simp only: of_nat_less_iff)
  then have b: "int (unat x) < 2 ^ 63" by simp
  have "(of_nat (unat ?w) :: 64 word) = ?w" by simp
  then have "?w = of_nat (unat x)" unfolding unat_ucast_32_64 by simp
  then have "sint ?w = sint (of_nat (unat x) :: 64 word)" by simp
  also have "\<dots> = int (unat x)" by (rule sint64_of_nat [OF b])
  finally show ?thesis .
qed

text \<open>
  Claim C5. For every format and every matching argument list whose record fits the
  32-bit length field of a mailbox slot: when \<^verbatim>\<open>urpc_generic_send\<close> has packed and
  published the record, \<^verbatim>\<open>urpc_unpack_payload\<close> with the same format, on the payload
  that the published slot describes, returns 0 and gives back the original \<^verbatim>\<open>I\<close> and
  \<^verbatim>\<open>L\<close> values and, for each \<^verbatim>\<open>P\<close> field, the original length and a pointer into
  the payload at which the original bytes stand.
\<close>

theorem pack_unpack_roundtrip:
  assumes "0 < N" and "length (mb (tq uc)) = N"
    and "args_match fmt args" and "pack_total fmt args + 7 < 2 ^ 32"
    and "urpc_generic_send N D T uc data cmd fmt args obs = Send_ok req uc' data'"
    and "m = mb (tq uc') ! REQ2SLOT N req"
  shows "c_cmd m = of_int cmd \<and>
         (case urpc_unpack_payload data' (fst (set_recv_payload m)) (snd (set_recv_payload m)) fmt of
            None \<Rightarrow> False
          | Some (rc, outs) \<Rightarrow>
              rc = 0 \<and>
              list_all2 (out_matches data' (unat (c_offs m)) (unat (c_offs m) + unat (c_len m)))
                args outs)"
proof -
  let ?t = "pack_total fmt args"
  let ?sz = "ALIGN8B (of_nat ?t :: 64 word)"
  have ps: "pack_size fmt args 0 = Some (of_nat ?t)"
    using pack_size_total [OF assms(3), of 0] by simp
  have t64: "?t + 7 < 2 ^ 64" using assms(4) by simp
  have usz: "unat ?sz = (?t + 7) div 8 * 8" by (rule unat_ALIGN8B_64 [OF t64])
  show ?thesis
  proof (cases "?t = 0")
    case True
    then have z: "?sz = 0" using usz by (simp add: unat_eq_0)
    from assms(5) ps z have "send_put N D uc data (mb_zero\<lparr>c_cmd := of_int cmd\<rparr>) = Send_ok req uc' data'"
      by (simp add: urpc_generic_send_def Let_def)
    then have put: "urpc_put_cmd N D uc (mb_zero\<lparr>c_cmd := of_int cmd\<rparr>) = Some (req, uc')"
      and d: "data' = data"
      by (auto simp: send_put_def split: option.splits)
    have m: "m = mb_zero\<lparr>c_cmd := of_int cmd\<rparr>"
      using put_published [OF put assms(1,2)] assms(6) by simp
    have rp: "set_recv_payload m = (None, 0)" by (simp add: m set_recv_payload_def mb_zero_def)
    from pack_fill_nothing [OF assms(3) True, of 0 data' 0]
    have pf: "pack_fill fmt args 0 data' = Some data'" and nr: "\<not> reads_payload fmt 0" by simp_all
    from roundtrip_core [OF assms(3) pf, of 0 0 "unat (c_offs m) + unat (c_len m)"] True
    have rt: "fst (unpack_loop data' fmt 0 0) = 0"
      "list_all2 (out_matches data' 0 (unat (c_offs m) + unat (c_len m))) args
         (snd (unpack_loop data' fmt 0 0))"
      by simp_all
    have o: "unat (c_offs m) = 0" by (simp add: m mb_zero_def)
    show ?thesis using rt nr rp o
      by (simp add: urpc_unpack_payload_def case_prod_unfold m)
  next
    case False
    let ?A = "(?t + 7) div 8 * 8"
    have A: "?t \<le> ?A" "0 < ?A" "?A < 2 ^ 32" using False assms(4) by arith+
    have nz: "?sz \<noteq> 0" using usz A(2) by (metis less_numeral_extra(3) unat_0)
    let ?s32 = "ucast ?sz :: 32 word"
    have u32: "unat ?s32 = ?A"
      using A(3) by (simp add: unsigned_ucast_eq usz take_bit_nat_eq_self)
    from assms(5) ps nz obtain m1 uc1 data1 where
      al: "alloc_payload N D T uc ?s32 obs = Some (Alloc_ok m1, uc1)"
      and nzm: "m1 \<noteq> mb_zero"
      and pf: "pack_fill fmt args (unat (c_offs m1)) data = Some data1"
      and sp: "send_put N D uc1 data1 (m1\<lparr>c_cmd := of_int cmd\<rparr>) = Send_ok req uc' data'"
      by (auto simp: urpc_generic_send_def Let_def
          split: option.splits alloc_result.splits if_splits)
    from sp have put: "urpc_put_cmd N D uc1 (m1\<lparr>c_cmd := of_int cmd\<rparr>) = Some (req, uc')"
      and d: "data' = data1"
      by (auto simp: send_put_def split: option.splits)
    note ok = alloc_payload_ok [OF al]
    have len1: "length (mb (tq uc1)) = N" using ok assms(2) by simp
    have m: "m = m1\<lparr>c_cmd := of_int cmd\<rparr>"
      using put_published [OF put assms(1) len1] assms(6) by simp
    have cl: "c_len m = ?s32" "c_offs m = c_offs m1" using ok m by simp_all
    have pos: "0 < c_len m" unfolding cl using u32 A(2) by (simp add: word_less_nat_alt)
    let ?plen = "ucast (c_len m) :: 64 word"
    have rp: "set_recv_payload m = (Some (unat (c_offs m)), ?plen)"
      using pos by (simp add: set_recv_payload_def)
    have spl: "sint ?plen = int ?A"
      unfolding sint_ucast_32_64 cl u32 ..
    have pf': "pack_fill fmt args (unat (c_offs m)) data = Some data'" using pf d cl by simp
    have le: "int ?t \<le> sint ?plen" using spl A(1) by simp
    have hi: "unat (c_offs m) + ?t \<le> unat (c_offs m) + unat (c_len m)"
      unfolding cl u32 using A(1) by simp
    note rt = roundtrip_core [OF assms(3) pf' le order_refl hi]
    have "sint (?plen - of_nat ?t) = sint ?plen - int ?t" by (rule sint64_sub_nat [OF le])
    then have nneg: "\<not> ?plen - of_nat ?t <s 0" using le by (simp add: word_sless_alt)
    show ?thesis
      using rt nneg rp m by (simp add: urpc_unpack_payload_def case_prod_unfold)
  qed
qed

theorem pack_unpack_roundtrip_witness:
  "(case demo_send of
      Send_ok req uc' data' \<Rightarrow>
        c_cmd (mb (tq uc') ! REQ2SLOT 4 req) = 7 \<and>
        (case urpc_unpack_payload data' (fst (set_recv_payload (mb (tq uc') ! REQ2SLOT 4 req)))
                (snd (set_recv_payload (mb (tq uc') ! REQ2SLOT 4 req))) ''IxLP'' of
           None \<Rightarrow> False
         | Some (rc, outs) \<Rightarrow>
             rc = 0 \<and>
             list_all2
               (out_matches data' (unat (c_offs (mb (tq uc') ! REQ2SLOT 4 req)))
                  (unat (c_offs (mb (tq uc') ! REQ2SLOT 4 req))
                     + unat (c_len (mb (tq uc') ! REQ2SLOT 4 req))))
               [Arg_I 5, Arg_L 77, Arg_P [1, 2, 3]] outs)
    | _ \<Rightarrow> False)"
proof -
  have ok: "case demo_send of Send_ok req uc' data' \<Rightarrow> True | _ \<Rightarrow> False"
    by code_simp
  obtain req uc' data' where e: "demo_send = Send_ok req uc' data'"
  proof (cases demo_send)
    case Send_undefined
    show ?thesis using ok unfolding Send_undefined by simp
  next
    case Send_spinning
    show ?thesis using ok unfolding Send_spinning by simp
  next
    case (Send_ENOMEM u)
    show ?thesis using ok unfolding Send_ENOMEM by simp
  next
    case (Send_ok req uc' data')
    then show ?thesis by (rule that)
  qed
  have h1: "(0::nat) < 4" by simp
  have h2: "length (mb (tq (vh_urpc_comm_init 4 1024 (blank_comm 4)))) = 4" by code_simp
  have h3: "args_match ''IxLP'' [Arg_I 5, Arg_L 77, Arg_P [1, 2, 3]]" by simp
  have h4: "pack_total ''IxLP'' [Arg_I 5, Arg_L 77, Arg_P [1, 2, 3]] + 7 < 2 ^ 32" by simp
  note h = h1 h2 h3 h4
  note t = pack_unpack_roundtrip [OF h e [unfolded demo_send_def] refl]
  show ?thesis unfolding e using t by simp
qed

text \<open>
  Claim C6 does not hold of the code. The payload is 8 bytes long and its \<^verbatim>\<open>P\<close> field
  announces \<open>2^64 - 8\<close> bytes: the format requires \<open>2^64\<close> bytes, more than \<^verbatim>\<open>psz\<close>,
  and \<^verbatim>\<open>urpc_unpack_payload\<close> returns 0, with a length that reaches far beyond the
  buffer: the subtraction \<^verbatim>\<open>lsz -= *dummys\<close> wraps around to a positive value.
\<close>

theorem urpc_unpack_payload_accepts_short_buffer:
  "urpc_unpack_payload huge_length_payload (Some 0) 8 ''P''
     = Some (0, [Out_P 8 0xFFFFFFFFFFFFFFF8]) \<and>
   bytes_required huge_length_payload ''P'' 0 = 2 ^ 64 \<and>
   unat (8 :: 64 word) < bytes_required huge_length_payload ''P'' 0"
proof -
  have rd: "read_bytes 0 8 huge_length_payload = [0xF8, 0xFF, 0xFF, 0xFF, 0xFF, 0xFF, 0xFF, 0xFF]"
  proof -
    have len: "length [0xF8, 0xFF, 0xFF, 0xFF, 0xFF, 0xFF, 0xFF, 0xFF :: 8 word] = 8" by simp
    show ?thesis
      unfolding huge_length_payload_def
      using read_write_bytes [of 0 "[0xF8, 0xFF, 0xFF, 0xFF, 0xFF, 0xFF, 0xFF, 0xFF]" mem0]
      unfolding len .
  qed
  have ld: "load64 0 huge_length_payload = 0xFFFFFFFFFFFFFFF8"
    unfolding load64_def rd by simp
  have un: "unat (0xFFFFFFFFFFFFFFF8 :: 64 word) = 18446744073709551608" by simp
  have l: "(8 :: 64 word) - 8 - 0xFFFFFFFFFFFFFFF8 = 8" by simp
  have a: "urpc_unpack_payload huge_length_payload (Some 0) 8 ''P''
     = Some (0, [Out_P 8 0xFFFFFFFFFFFFFFF8])"
    by (simp add: urpc_unpack_payload_def ld l word_sless_alt)
  have b: "bytes_required huge_length_payload ''P'' 0 = 2 ^ 64"
    by (simp add: ld un)
  show ?thesis using a b by simp
qed

lemma sint64_sub_nat_nonneg:
  fixes w :: "64 word"
  assumes "0 \<le> sint w" and "int k < 2 ^ 63"
  shows "sint (w - of_nat k) = sint w - int k"
proof -
  have hi: "sint w < 2 ^ 63" using sint_lt [of w] by simp
  have "sint (w - of_nat k) = signed_take_bit 63 (sint w - sint (of_nat k :: 64 word))"
    using sint_word_diff [of w "of_nat k"] by simp
  also have "\<dots> = signed_take_bit 63 (sint w - int k)"
    unfolding sint64_of_nat [OF assms(2)] ..
  also have "\<dots> = sint w - int k"
  proof (rule signed_take_bit_int_eq_self)
    show "- (2 ^ 63) \<le> sint w - int k" using assms by linarith
    have "sint w - int k \<le> sint w" by simp
    with hi show "sint w - int k < 2 ^ 63" by linarith
  qed
  finally show ?thesis .
qed

lemma unpack_loop_negative:
  "lsz <s 0 \<Longrightarrow> fst (unpack_loop mem fmt pp lsz) = lsz"
  by (cases fmt) simp_all

lemma unpack_field:
  fixes lsz :: "64 word"
  assumes "0 \<le> sint lsz" and "int k < 2 ^ 63"
    and ih: "0 \<le> sint (lsz - of_nat k) \<Longrightarrow>
             (fst (unpack_loop mem fmt pp' (lsz - of_nat k)) <s 0) = (sint (lsz - of_nat k) < int r)"
  shows "(fst (unpack_loop mem fmt pp' (lsz - of_nat k)) <s 0) = (sint lsz < int k + int r)"
proof -
  have s: "sint (lsz - of_nat k) = sint lsz - int k"
    by (rule sint64_sub_nat_nonneg [OF assms(1,2)])
  show ?thesis
  proof (cases "0 \<le> sint (lsz - of_nat k)")
    case True
    from ih [OF True] have "(fst (unpack_loop mem fmt pp' (lsz - of_nat k)) <s 0)
        = (sint lsz - int k < int r)" unfolding s .
    also have "\<dots> = (sint lsz < int k + int r)" by auto
    finally show ?thesis .
  next
    case False
    then have neg: "lsz - of_nat k <s 0" by (simp add: word_sless_alt)
    have "fst (unpack_loop mem fmt pp' (lsz - of_nat k)) = lsz - of_nat k"
      by (rule unpack_loop_negative [OF neg])
    with neg False s show ?thesis by simp
  qed
qed

lemma unpack_loop_short_iff:
  "0 \<le> sint lsz \<Longrightarrow> lengths_small mem fmt pp \<Longrightarrow>
   (fst (unpack_loop mem fmt pp lsz) <s 0) = (sint lsz < int (bytes_required mem fmt pp))"
proof (induction fmt arbitrary: pp lsz)
  case Nil
  then show ?case by (simp add: word_sless_alt)
next
  case (Cons c fmt)
  have nn: "\<not> lsz <s 0" using Cons.prems(1) by (simp add: word_sless_alt)
  show ?case
  proof (cases "c = CHR ''I'' \<or> c = CHR ''x''")
    case True
    with Cons.prems have ls: "lengths_small mem fmt (pp + 4)" by auto
    have "(fst (unpack_loop mem fmt (pp + 4) (lsz - of_nat 4)) <s 0)
            = (sint lsz < int 4 + int (bytes_required mem fmt (pp + 4)))"
      using Cons.prems(1) Cons.IH [OF _ ls] by (intro unpack_field) simp_all
    with True nn show ?thesis by (auto simp: case_prod_unfold)
  next
    case nIx: False
    show ?thesis
    proof (cases "c = CHR ''L''")
      case True
      with Cons.prems nIx have ls: "lengths_small mem fmt (pp + 8)" by auto
      have "(fst (unpack_loop mem fmt (pp + 8) (lsz - of_nat 8)) <s 0)
              = (sint lsz < int 8 + int (bytes_required mem fmt (pp + 8)))"
        using Cons.prems(1) Cons.IH [OF _ ls] by (intro unpack_field) simp_all
      with True nIx nn show ?thesis by (auto simp: case_prod_unfold)
    next
      case nL: False
      show ?thesis
      proof (cases "c = CHR ''P''")
        case True
        let ?d = "load64 pp mem"
        from Cons.prems nIx nL True have small: "unat ?d < 2 ^ 62"
          and ls: "lengths_small mem fmt (pp + 8 + unat ?d)" by auto
        have "8 + unat ?d < 2 ^ 63" using small by simp
        then have "int (8 + unat ?d) < int (2 ^ 63)" by (simp only: of_nat_less_iff)
        then have k: "int (8 + unat ?d) < 2 ^ 63" by simp
        have eq: "lsz - 8 - ?d = lsz - of_nat (8 + unat ?d)" by simp
        have "(fst (unpack_loop mem fmt (pp + 8 + unat ?d) (lsz - of_nat (8 + unat ?d))) <s 0)
              = (sint lsz < int (8 + unat ?d) + int (bytes_required mem fmt (pp + 8 + unat ?d)))"
          using Cons.prems(1) k Cons.IH [OF _ ls] by (intro unpack_field) simp_all
        then have "(fst (unpack_loop mem fmt (pp + 8 + unat ?d) (lsz - 8 - ?d)) <s 0)
              = (sint lsz < int (8 + unat ?d) + int (bytes_required mem fmt (pp + 8 + unat ?d)))"
          unfolding eq .
        with True nIx nL nn show ?thesis by (simp add: case_prod_unfold Let_def)
      next
        case False
        with Cons.prems nIx nL have ls: "lengths_small mem fmt pp" by auto
        from Cons.IH [OF Cons.prems(1) ls] False nIx nL nn show ?thesis by simp
      qed
    qed
  qed
qed

text \<open>
  Where nothing wraps around, the result is as claim C6 says: for a length \<^verbatim>\<open>psz\<close>
  below \<open>2^63\<close> and \<^verbatim>\<open>P\<close> lengths below \<open>2^62\<close>, \<^verbatim>\<open>urpc_unpack_payload\<close> returns
  \<open>-1\<close> exactly when the format requires more than \<^verbatim>\<open>psz\<close> bytes, and 0 otherwise.
\<close>

theorem urpc_unpack_payload_short_iff:
  assumes "0 \<le> sint psz" and "lengths_small mem fmt pp"
  shows "\<exists>outs. urpc_unpack_payload mem (Some pp) psz fmt =
           Some (if unat psz < bytes_required mem fmt pp then - 1 else 0, outs)"
proof -
  have u: "int (unat psz) = sint psz"
    using unat64_of_sint [OF assms(1)] assms(1) by simp
  have "(fst (unpack_loop mem fmt pp psz) <s 0) = (int (unat psz) < int (bytes_required mem fmt pp))"
    unfolding u by (rule unpack_loop_short_iff [OF assms])
  also have "\<dots> = (unat psz < bytes_required mem fmt pp)" by (simp only: of_nat_less_iff)
  finally have "(fst (unpack_loop mem fmt pp psz) <s 0) = (unat psz < bytes_required mem fmt pp)" .
  then show ?thesis
    by (simp add: urpc_unpack_payload_def case_prod_unfold)
qed

theorem urpc_unpack_payload_short_iff_witness:
  "\<exists>outs. urpc_unpack_payload mem0 (Some 0) 8 ''IL'' = Some (- 1, outs)"
proof -
  have a: "0 \<le> sint (8 :: 64 word)" by simp
  have b: "lengths_small mem0 ''IL'' 0" by simp
  from urpc_unpack_payload_short_iff [OF a b] show ?thesis by simp
qed

section \<open>The progress loop and host-side commands\<close>

text \<open>
  Claim C1 does not hold of the code. A remote call and then a host-side call are
  pending, and no reply has arrived. \<^verbatim>\<open>_progress_nolock\<close> submits the remote call,
  then pops the host-side command, finds the in-flight queue non-empty and does nothing
  with the command: it is not executed and it is in none of the three queues
  afterwards. When the reply of the remote call has arrived, the next call completes
  request 1; the host function of request 2 never runs.
\<close>

theorem progress_discards_host_side_command:
  "(case progress_nolock 4 (\<lambda>w. 0) id mixed_context 3 of
      Inl e \<Rightarrow> False
    | Inr ctx1 \<Rightarrow>
        queue_ids ctx1 = ([], [1], []) \<and> world ctx1 = [Sent 1] \<and>
        (case progress_nolock 4 (\<lambda>w. 0) id (ctx1\<lparr>up_recv := reply_arrived\<rparr>) 3 of
           Inl e \<Rightarrow> False
         | Inr ctx2 \<Rightarrow>
             queue_ids ctx2 = ([], [], [1]) \<and> world ctx2 = [Sent 1, Replied 1]))"
  by code_simp

section \<open>The peer record\<close>

lemma memset_keeps_rest:
  "n \<le> i \<Longrightarrow> i < length block \<Longrightarrow> memset block c n ! i = block ! i"
  by (simp add: memset_def nth_append min_def)

text \<open>
  Claim C9 does not hold of the code. Of a peer record of 24 bytes (the real one is
  larger) that \<^verbatim>\<open>malloc\<close> returned filled with the byte \<open>0xAA\<close>, only the first 8 bytes
  are zero when the function starts to fill in the fields.
\<close>

theorem vh_urpc_peer_create_leaves_bytes_unset:
  "vh_urpc_peer_create_block 0 64 (Some (replicate 24 0xAA))
     = Some (replicate 8 0 @ replicate 16 0xAA) \<and>
   vh_urpc_peer_create_block 0 64 (Some (replicate 24 0xAA)) \<noteq> Some (replicate 24 0)"
  by code_simp

end
